theory Spec2Isabelle
  imports Complex_Main "HOL-Library.Product_Lexorder" "HOL-Library.AList" "HOL-Library.Word"
begin

section \<open>Calendar dates\<close>

text \<open>
  The source keeps dates as strings \<^verbatim>\<open>YYYY-MM-DD\<close> and parses them with
  \<^verbatim>\<open>pd.to_datetime\<close>. A date is modelled by its three fields (year, month, day);
  the lexicographic order on the triple is the chronological order of the timestamps.
  The day count follows Python's \<^verbatim>\<open>date.toordinal\<close> and \<^verbatim>\<open>weekday\<close> (Monday is 0).
  The finite range of a pandas timestamp (years 1677 to 2262) is not modelled.
\<close>

type_synonym date = "int \<times> int \<times> int"

definition is_leap :: "int \<Rightarrow> bool" where
  "is_leap y \<longleftrightarrow> y mod 4 = 0 \<and> (y mod 100 \<noteq> 0 \<or> y mod 400 = 0)"

definition days_in_month :: "int \<Rightarrow> int \<Rightarrow> int" where
  "days_in_month y m =
     (if m = 2 then (if is_leap y then 29 else 28)
      else if m = 4 \<or> m = 6 \<or> m = 9 \<or> m = 11 then 30 else 31)"

definition valid_date :: "date \<Rightarrow> bool" where
  "valid_date t =
     (case t of (y, m, d) \<Rightarrow> 1 \<le> m \<and> m \<le> 12 \<and> 1 \<le> d \<and> d \<le> days_in_month y m)"

definition days_before_year :: "int \<Rightarrow> int" where
  "days_before_year y = 365 * (y - 1) + (y - 1) div 4 - (y - 1) div 100 + (y - 1) div 400"

definition days_before_month :: "int \<Rightarrow> int \<Rightarrow> int" where
  "days_before_month y m =
     [0, 31, 59, 90, 120, 151, 181, 212, 243, 273, 304, 334] ! nat (m - 1)
       + (if 2 < m \<and> is_leap y then 1 else 0)"

definition toordinal :: "date \<Rightarrow> int" where
  "toordinal t = (case t of (y, m, d) \<Rightarrow> days_before_year y + days_before_month y m + d)"

definition weekday :: "date \<Rightarrow> int" where
  "weekday t = (toordinal t + 6) mod 7"

definition next_day :: "date \<Rightarrow> date" where
  "next_day t = (case t of (y, m, d) \<Rightarrow>
     if d < days_in_month y m then (y, m, d + 1)
     else if m < 12 then (y, m + 1, 1) else (y + 1, 1, 1))"

definition prev_day :: "date \<Rightarrow> date" where
  "prev_day t = (case t of (y, m, d) \<Rightarrow>
     if 1 < d then (y, m, d - 1)
     else if 1 < m then (y, m - 1, days_in_month y (m - 1)) else (y - 1, 12, 31))"

text \<open>\<^verbatim>\<open>t + pd.Timedelta(days=k)\<close>: \<open>k\<close> steps of one calendar day, backwards when \<open>k\<close> is negative.\<close>

definition add_days :: "int \<Rightarrow> date \<Rightarrow> date" where
  "add_days k t = (if 0 \<le> k then (next_day ^^ nat k) t else (prev_day ^^ nat (- k)) t)"

text \<open>\<^verbatim>\<open>t + pd.offsets.MonthEnd(0)\<close>: roll forward to the last day of the month of \<open>t\<close>.\<close>

definition month_end :: "date \<Rightarrow> date" where
  "month_end t = (case t of (y, m, d) \<Rightarrow> (y, m, days_in_month y m))"

text \<open>\<^verbatim>\<open>t.replace(day=1)\<close>.\<close>

definition replace_day1 :: "date \<Rightarrow> date" where
  "replace_day1 t = (case t of (y, m, d) \<Rightarrow> (y, m, 1))"

section \<open>The dataset\<close>

text \<open>
  The dictionary built by \<^verbatim>\<open>InvestSmartJSONClient.get_signals_data\<close> and consumed by
  \<^verbatim>\<open>resample_data_to_timeframe\<close>. Keys that a dictionary may lack are optional fields.
  Dictionaries from names to series are association lists in insertion order; a Python
  dictionary has no duplicate keys. The type parameters are the types of a date, of a
  number, of a volume and of the \<^verbatim>\<open>last_updated\<close> stamp: JSON values in the client,
  parsed dates and numbers in the chart component. There the prices, signals and
  indicators are reals (the operations on them are comparisons and selections, which
  lose nothing in floating point), and a volume is a 64-bit integer, the \<^verbatim>\<open>int64\<close> of
  the pandas column that the volumes of a data file make: \<open>sint\<close> reads its value, and
  addition wraps around as the machine does.
\<close>

record ('n, 'v) ohlcv =
  "open" :: "'n list"
  high :: "'n list"
  low :: "'n list"
  "close" :: "'n list"
  volume :: "'v list"

record 'd trendline =
  name :: string
  color :: string
  points :: "('d \<times> real) list"

text \<open>The two messages of the client: \<open>DataNotFound\<close> is the fixed text of the
  empty-data branch, \<open>QueryFailed\<close> the text built from a caught exception.\<close>

datatype error_message = DataNotFound | QueryFailed

record ('d, 'n, 'v, 'u) dataset =
  symbol :: string
  dates :: "'d list"
  data :: "('n, 'v) ohlcv option"
  signals :: "(string \<times> 'n list) list"
  indicators :: "(string \<times> 'n list) list"
  trendlines :: "'d trendline list option"
  last_updated :: "'u option"
  error :: "error_message option"

type_synonym chart_data = "(date, real, 64 word, string) dataset"

section \<open>pandas operations used by the chart component\<close>

datatype py_error = ValueError

text \<open>\<^verbatim>\<open>pd.to_datetime\<close> raises a \<^verbatim>\<open>ValueError\<close> on a string that is no calendar date.\<close>

definition to_datetime :: "date list \<Rightarrow> py_error + date list" where
  "to_datetime ds = (if list_all valid_date ds then Inr ds else Inl ValueError)"

text \<open>A row of the frame: the index date, then open, high, low, close, volume.\<close>

type_synonym 'a row = "date \<times> 'a \<times> 'a \<times> 'a \<times> 'a \<times> 64 word"

definition row_open :: "'a row \<Rightarrow> 'a" where "row_open r = fst (snd r)"
definition row_high :: "'a row \<Rightarrow> 'a" where "row_high r = fst (snd (snd r))"
definition row_low :: "'a row \<Rightarrow> 'a" where "row_low r = fst (snd (snd (snd r)))"
definition row_close :: "'a row \<Rightarrow> 'a" where "row_close r = fst (snd (snd (snd (snd r))))"
definition row_volume :: "'a row \<Rightarrow> 64 word" where "row_volume r = snd (snd (snd (snd (snd r))))"

text \<open>\<^verbatim>\<open>pd.DataFrame({...})\<close> from columns raises a \<^verbatim>\<open>ValueError\<close> unless all columns
  have the same length; \<^verbatim>\<open>set_index('date')\<close> makes the dates the index.\<close>

definition DataFrame :: "date list \<Rightarrow> (real, 64 word) ohlcv \<Rightarrow> py_error + real row list" where
  "DataFrame ds stock_data =
     (if length (open stock_data) = length ds \<and> length (high stock_data) = length ds
         \<and> length (low stock_data) = length ds \<and> length (close stock_data) = length ds
         \<and> length (volume stock_data) = length ds
      then Inr (zip ds (zip (open stock_data) (zip (high stock_data)
                 (zip (low stock_data) (zip (close stock_data) (volume stock_data))))))
      else Inl ValueError)"

text \<open>The formula of the source for the end of the week: the date plus
  \<^verbatim>\<open>(4 - weekday) % 7\<close> days.\<close>

definition week_end_of :: "date \<Rightarrow> date" where
  "week_end_of t = add_days ((4 - weekday t) mod 7) t"

text \<open>The label of the bin of a resampling rule that holds a timestamp: its roll forward to
  the next anchor, a Friday for \<^verbatim>\<open>W-FRI\<close>, a month end for \<^verbatim>\<open>M\<close>
  (bins closed and labelled on the right).\<close>

definition rollforward :: "string \<Rightarrow> date \<Rightarrow> date" where
  "rollforward rule t = (if rule = ''W-FRI'' then week_end_of t else month_end t)"

definition month_index :: "date \<Rightarrow> int" where
  "month_index t = (case t of (y, m, d) \<Rightarrow> 12 * y + m)"

definition month_end_of_index :: "int \<Rightarrow> date" where
  "month_end_of_index q =
     (let y = (q - 1) div 12; m = (q - 1) mod 12 + 1 in (y, m, days_in_month y m))"

text \<open>All the labels from the bin of the first timestamp to the bin of the last: every
  Friday, or every month end, in between, whether or not a row falls into it.\<close>

definition bin_labels :: "string \<Rightarrow> date \<Rightarrow> date \<Rightarrow> date list" where
  "bin_labels rule first_label last_label =
     (if rule = ''W-FRI''
      then map (\<lambda>k. add_days (7 * int k) first_label)
             [0 ..< nat ((toordinal last_label - toordinal first_label) div 7) + 1]
      else map (\<lambda>k. month_end_of_index (month_index first_label + int k))
             [0 ..< nat (month_index last_label - month_index first_label) + 1])"

text \<open>The aggregations; \<open>None\<close> is the NaN that first, last, max and min give on an empty
  bin, while the sum of an empty bin is 0. The sum runs in the \<^verbatim>\<open>int64\<close> of the volume
  column and wraps around silently.\<close>

definition agg_first :: "'a list \<Rightarrow> 'a option" where
  "agg_first xs = (case xs of [] \<Rightarrow> None | x # _ \<Rightarrow> Some x)"

definition agg_last :: "'a list \<Rightarrow> 'a option" where
  "agg_last xs = (if xs = [] then None else Some (last xs))"

definition agg_max :: "real list \<Rightarrow> real option" where
  "agg_max xs = (case xs of [] \<Rightarrow> None | x # r \<Rightarrow> Some (fold max r x))"

definition agg_min :: "real list \<Rightarrow> real option" where
  "agg_min xs = (case xs of [] \<Rightarrow> None | x # r \<Rightarrow> Some (fold min r x))"

definition agg_sum :: "64 word list \<Rightarrow> 64 word" where
  "agg_sum xs = sum_list xs"

text \<open>\<^verbatim>\<open>df.resample(rule).agg(ohlc_dict)\<close>: the index is sorted first (a stable sort), then
  one row per bin label.\<close>

definition resample_agg :: "string \<Rightarrow> real row list \<Rightarrow> real option row list" where
  "resample_agg rule df =
     (let s = sort_key fst df in
      if s = [] then []
      else map (\<lambda>b. let g = filter (\<lambda>r. rollforward rule (fst r) = b) s
                     in (b, agg_first (map row_open g), agg_max (map row_high g),
                            agg_min (map row_low g), agg_last (map row_close g),
                            agg_sum (map row_volume g)))
             (bin_labels rule (rollforward rule (fst (hd s))) (rollforward rule (fst (last s)))))"

text \<open>\<^verbatim>\<open>.dropna()\<close>: rows with a NaN in any column are removed.\<close>

definition keep_row :: "real option row \<Rightarrow> real row option" where
  "keep_row r = (case r of
       (b, Some o', Some h, Some l, Some c, v) \<Rightarrow> Some (b, o', h, l, c, v)
     | _ \<Rightarrow> None)"

definition dropna :: "real option row list \<Rightarrow> real row list" where
  "dropna rows = List.map_filter keep_row rows"

text \<open>\<^verbatim>\<open>DatetimeIndex.get_loc\<close> on an index without duplicates: the position of the key,
  \<open>None\<close> for the \<^verbatim>\<open>KeyError\<close>.  On an index with a repeated key pandas answers a slice or a
  mask instead of a position; the axis that \<^verbatim>\<open>resample_data_to_timeframe\<close> builds is strictly
  ascending (lemma \<open>resampled_axis_ascending\<close>), and the statements about
  \<^verbatim>\<open>map_signals_to_timeframe\<close> on an axis of its own assume a strictly ascending one.\<close>

fun get_loc :: "date list \<Rightarrow> date \<Rightarrow> nat option" where
  "get_loc [] k = None"
| "get_loc (x # xs) k = (if x = k then Some 0 else map_option Suc (get_loc xs k))"

text \<open>\<^verbatim>\<open>searchsorted\<close> (side left) on an ascending index: the first position whose entry is
  not below the value.  The binary search of numpy finds that position on an ascending index
  only; the statements below use it on strictly ascending axes only.\<close>

definition searchsorted :: "date list \<Rightarrow> date \<Rightarrow> nat" where
  "searchsorted xs v = length (takeWhile (\<lambda>x. x < v) xs)"

section \<open>The chart component\<close>

text \<open>The body of the loop of \<^verbatim>\<open>map_signals_to_timeframe\<close> up to the inner loop: the
  index of the weekly or monthly bar of a daily date, \<open>None\<close> where the source continues
  with the next date.\<close>

definition resampled_index :: "string \<Rightarrow> date list \<Rightarrow> date \<Rightarrow> nat option" where
  "resampled_index timeframe resampled_dt orig_date =
     (if timeframe = ''weekly'' then
        (let week_end = add_days ((4 - weekday orig_date) mod 7) orig_date in
         case get_loc resampled_dt week_end of
           Some idx \<Rightarrow> Some idx
         | None \<Rightarrow>
             (let closest_idx = searchsorted resampled_dt week_end in
              if closest_idx > 0 then Some (closest_idx - 1) else None))
      else if timeframe = ''monthly'' then
        (let month_end' = month_end orig_date in
         case get_loc resampled_dt month_end' of
           Some idx \<Rightarrow> Some idx
         | None \<Rightarrow>
             (let closest_idx = searchsorted resampled_dt month_end' in
              if closest_idx > 0 then Some (closest_idx - 1) else None))
      else None)"

text \<open>The inner loop: every signal that is nonzero at position \<open>i\<close> is written to the
  slot, over whatever the slot holds.\<close>

definition write_signals ::
  "(string \<times> real list) list \<Rightarrow> nat \<Rightarrow> nat \<Rightarrow> (string \<times> real list) list
     \<Rightarrow> (string \<times> real list) list" where
  "write_signals original_signals i resampled_idx mapped_signals =
     fold (\<lambda>(signal_name, signal_values) mapped.
             if i < length signal_values \<and> signal_values ! i \<noteq> 0
             then AList.map_entry signal_name (\<lambda>out. out[resampled_idx := signal_values ! i]) mapped
             else mapped)
       original_signals mapped_signals"

definition map_signals_to_timeframe ::
  "(string \<times> real list) list \<Rightarrow> date list \<Rightarrow> date list \<Rightarrow> string
     \<Rightarrow> (string \<times> real list) list" where
  "map_signals_to_timeframe original_signals original_dates resampled_dates timeframe =
     (if timeframe = ''daily'' then original_signals
      else fold (\<lambda>(i, orig_date) mapped.
                   case resampled_index timeframe resampled_dates orig_date of
                     None \<Rightarrow> mapped
                   | Some resampled_idx \<Rightarrow> write_signals original_signals i resampled_idx mapped)
             (enumerate 0 original_dates)
             (map (\<lambda>(signal_name, _). (signal_name, replicate (length resampled_dates) 0))
                original_signals))"

text \<open>The loop over the resampled dates that builds \<^verbatim>\<open>resampled_fcv\<close>.\<close>

definition resample_fcv :: "string \<Rightarrow> date list \<Rightarrow> date list \<Rightarrow> real list \<Rightarrow> real list" where
  "resample_fcv timeframe original_dates resampled_dates indicator_values =
     map (\<lambda>resampled_date.
            let (week_start, week_end) =
                  (if timeframe = ''weekly'' then (add_days (- 6) resampled_date, resampled_date)
                   else if timeframe = ''monthly'' then (replace_day1 resampled_date, resampled_date)
                   else (resampled_date, resampled_date));
                period_fcv_values =
                  map (\<lambda>(j, orig_date). indicator_values ! j)
                    (filter (\<lambda>(j, orig_date). week_start \<le> orig_date \<and> orig_date \<le> week_end
                                               \<and> j < length indicator_values)
                       (enumerate 0 original_dates))
            in if period_fcv_values \<noteq> [] then last period_fcv_values else 0)
       resampled_dates"

definition resample_data_to_timeframe :: "chart_data \<Rightarrow> string \<Rightarrow> py_error + chart_data" where
  "resample_data_to_timeframe d timeframe =
     (if timeframe = ''daily'' then Inr d
      else
        let stock_data = (case data d of
                            None \<Rightarrow> \<lparr>open = [], high = [], low = [], close = [], volume = []\<rparr>
                          | Some s \<Rightarrow> s)
        in case to_datetime (dates d) of
             Inl e \<Rightarrow> Inl e
           | Inr dt \<Rightarrow>
          (case DataFrame dt stock_data of
             Inl e \<Rightarrow> Inl e
           | Inr df \<Rightarrow>
               if timeframe \<noteq> ''weekly'' \<and> timeframe \<noteq> ''monthly'' then Inr d
               else
                 let resample_rule = (if timeframe = ''weekly'' then ''W-FRI'' else ''M'');
                     resampled_df = dropna (resample_agg resample_rule df);
                     resampled_dates = map fst resampled_df;
                     mapped_signals = map_signals_to_timeframe (signals d) (dates d)
                                        resampled_dates timeframe;
                     resampled_indicators =
                       map (\<lambda>(indicator_name, indicator_values).
                              if indicator_name = ''Final_Composite_Value''
                                 \<and> length indicator_values > 0
                              then (indicator_name,
                                    resample_fcv timeframe (dates d) resampled_dates indicator_values)
                              else (indicator_name, indicator_values))
                         (indicators d)
                 in Inr \<lparr>symbol = symbol d,
                         dates = resampled_dates,
                         data = Some \<lparr>open = map row_open resampled_df,
                                      high = map row_high resampled_df,
                                      low = map row_low resampled_df,
                                      close = map row_close resampled_df,
                                      volume = map row_volume resampled_df\<rparr>,
                         signals = mapped_signals,
                         indicators = resampled_indicators,
                         trendlines = Some (case trendlines d of None \<Rightarrow> [] | Some ts \<Rightarrow> ts),
                         last_updated = last_updated d,
                         error = None\<rparr>))"

section \<open>The JSON client\<close>

text \<open>A value as \<^verbatim>\<open>json.load\<close> returns it. An object is a Python dictionary, modelled as an
  association list without duplicate keys.\<close>

datatype json =
  JNull | JBool bool | JNum real | JStr string | JArr "json list" | JObj "(string \<times> json) list"

text \<open>What reading a path gives: \<open>NoFile\<close> when \<^verbatim>\<open>os.path.exists\<close> is false,
  \<open>Unreadable\<close> when \<^verbatim>\<open>open\<close> or \<^verbatim>\<open>json.load\<close> raises (a file without
  permission, an empty or a malformed file), \<open>Loaded v\<close> when \<^verbatim>\<open>json.load\<close> returns \<open>v\<close>.\<close>

datatype file_state = NoFile | Unreadable | Loaded json

type_synonym filesystem = "string \<Rightarrow> file_state"

record client =
  data_dir :: string
  cache :: "string \<Rightarrow> json option"

type_synonym json_data = "(json, json, json, json) dataset"

definition get_symbol_filename :: "string \<Rightarrow> string" where
  "get_symbol_filename symbol' =
     (let safe_symbol = map (\<lambda>c. if c = CHR ''/'' then CHR ''_'' else c)
                          (filter (\<lambda>c. c \<noteq> CHR ''^'' \<and> c \<noteq> CHR ''='') symbol')
      in ''signals_'' @ safe_symbol @ ''.json'')"

text \<open>\<^verbatim>\<open>os.path.join\<close> of a directory and a relative file name.\<close>

definition path_join :: "string \<Rightarrow> string \<Rightarrow> string" where
  "path_join a b = (if a = [] then b else if last a = CHR ''/'' then a @ b else a @ ''/'' @ b)"

definition load_symbol_data :: "filesystem \<Rightarrow> client \<Rightarrow> string \<Rightarrow> json" where
  "load_symbol_data fs c symbol' =
     (let filename = get_symbol_filename symbol';
          file_path = path_join (data_dir c) filename
      in case fs file_path of
           NoFile \<Rightarrow> JArr []
         | Unreadable \<Rightarrow> JArr []
         | Loaded v \<Rightarrow> v)"

text \<open>The truth value of a Python object, as \<^verbatim>\<open>not symbol_data\<close> tests it.\<close>

fun truthy :: "json \<Rightarrow> bool" where
  "truthy JNull = False"
| "truthy (JBool b) = b"
| "truthy (JNum x) = (x \<noteq> 0)"
| "truthy (JStr s) = (s \<noteq> [])"
| "truthy (JArr xs) = (xs \<noteq> [])"
| "truthy (JObj kvs) = (kvs \<noteq> [])"

text \<open>\<^verbatim>\<open>for item in symbol_data\<close>: a list gives its elements, a dictionary its keys, a
  string its characters; any other value is not iterable (\<open>None\<close> for the exception).\<close>

fun iterate :: "json \<Rightarrow> json list option" where
  "iterate (JArr xs) = Some xs"
| "iterate (JObj kvs) = Some (map (\<lambda>kv. JStr (fst kv)) kvs)"
| "iterate (JStr s) = Some (map (\<lambda>c. JStr [c]) s)"
| "iterate _ = None"

text \<open>\<^verbatim>\<open>item.get(key, 0)\<close> on a dictionary.\<close>

definition item_get :: "(string \<times> json) list \<Rightarrow> string \<Rightarrow> json \<Rightarrow> json" where
  "item_get kvs k dflt = (case map_of kvs k of None \<Rightarrow> dflt | Some v \<Rightarrow> v)"

definition signal_names :: "string list" where
  "signal_names = [''short_signal_v1'', ''short_signal_v2'', ''long_signal'',
                   ''combined_signal_v1'', ''macd_signal'', ''momentum_color_signal'']"

text \<open>One pass of the loop that fills the lists: \<^verbatim>\<open>item['date']\<close> raises unless the item
  is a dictionary with that key (\<open>None\<close> for the exception).\<close>

definition append_item :: "json \<Rightarrow> json_data \<Rightarrow> json_data option" where
  "append_item item acc =
     (case item of
        JObj kvs \<Rightarrow>
          (case map_of kvs ''date'' of
             None \<Rightarrow> None
           | Some dt \<Rightarrow>
               let stock_data = (case data acc of
                                   None \<Rightarrow> \<lparr>open = [], high = [], low = [], close = [], volume = []\<rparr>
                                 | Some s \<Rightarrow> s)
               in Some (acc\<lparr>
                    dates := dates acc @ [dt],
                    data := Some \<lparr>open = open stock_data @ [item_get kvs ''open'' (JNum 0)],
                                  high = high stock_data @ [item_get kvs ''high'' (JNum 0)],
                                  low = low stock_data @ [item_get kvs ''low'' (JNum 0)],
                                  close = close stock_data @ [item_get kvs ''close'' (JNum 0)],
                                  volume = volume stock_data @ [item_get kvs ''volume'' (JNum 0)]\<rparr>,
                    signals := map (\<lambda>(signal_name, vs). (signal_name, vs @ [item_get kvs signal_name (JNum 0)]))
                                 (signals acc),
                    indicators := map (\<lambda>(indicator_name, vs). (indicator_name, vs @ [item_get kvs ''fcv'' (JNum 0)]))
                                    (indicators acc)\<rparr>))
      | _ \<Rightarrow> None)"

fun append_items :: "json list \<Rightarrow> json_data \<Rightarrow> json_data option" where
  "append_items [] acc = Some acc"
| "append_items (item # items) acc =
     (case append_item item acc of None \<Rightarrow> None | Some acc' \<Rightarrow> append_items items acc')"

definition error_dict :: "string \<Rightarrow> error_message \<Rightarrow> json_data" where
  "error_dict symbol' msg =
     \<lparr>symbol = symbol', dates = [], data = None, signals = [], indicators = [],
      trendlines = None, last_updated = None, error = Some msg\<rparr>"

text \<open>The structuring part of \<^verbatim>\<open>get_signals_data\<close>; \<open>None\<close> when an exception is raised
  on the way.\<close>

definition structure_data :: "string \<Rightarrow> json \<Rightarrow> json_data option" where
  "structure_data symbol' symbol_data =
     (case iterate symbol_data of
        None \<Rightarrow> None
      | Some items \<Rightarrow>
          (case append_items items
                  \<lparr>symbol = symbol', dates = [],
                   data = Some \<lparr>open = [], high = [], low = [], close = [], volume = []\<rparr>,
                   signals = map (\<lambda>signal_name. (signal_name, [])) signal_names,
                   indicators = [(''Final_Composite_Value'', [])],
                   trendlines = Some [], last_updated = None, error = None\<rparr> of
             None \<Rightarrow> None
           | Some r \<Rightarrow>
               if truthy symbol_data then
                 (case last items of
                    JObj kvs \<Rightarrow>
                      Some (r\<lparr>last_updated := Some (item_get kvs ''last_updated'' (last (dates r)))\<rparr>)
                  | _ \<Rightarrow> None)
               else Some r))"

text \<open>\<^verbatim>\<open>get_signals_data\<close> returns the dictionary and leaves the client with its cache
  updated. The whole body is inside \<^verbatim>\<open>try\<close>, and every exception gives the error
  dictionary.\<close>

definition get_signals_data ::
  "filesystem \<Rightarrow> client \<Rightarrow> string \<Rightarrow> string \<Rightarrow> json_data \<times> client" where
  "get_signals_data fs c symbol' period =
     (let (symbol_data, c') =
            (case cache c symbol' of
               Some v \<Rightarrow> (v, c)
             | None \<Rightarrow> (let v = load_symbol_data fs c symbol'
                        in (v, c\<lparr>cache := (cache c)(symbol' \<mapsto> v)\<rparr>)))
      in if \<not> truthy symbol_data then (error_dict symbol' DataNotFound, c')
         else (case structure_data symbol' symbol_data of
                 Some r \<Rightarrow> (r, c')
               | None \<Rightarrow> (error_dict symbol' QueryFailed, c')))"

definition new_client :: "string \<Rightarrow> client" where
  "new_client dir = \<lparr>data_dir = dir, cache = Map.empty\<rparr>"

section \<open>Notions used in the statements\<close>

text \<open>The price columns that \<^verbatim>\<open>resample_data_to_timeframe\<close> reads, and the condition
  under which the frame can be built from them.\<close>

definition stock_data_of :: "chart_data \<Rightarrow> (real, 64 word) ohlcv" where
  "stock_data_of d = (case data d of
       None \<Rightarrow> \<lparr>open = [], high = [], low = [], close = [], volume = []\<rparr>
     | Some s \<Rightarrow> s)"

definition columns_aligned :: "chart_data \<Rightarrow> bool" where
  "columns_aligned d \<longleftrightarrow>
     length (open (stock_data_of d)) = length (dates d) \<and>
     length (high (stock_data_of d)) = length (dates d) \<and>
     length (low (stock_data_of d)) = length (dates d) \<and>
     length (close (stock_data_of d)) = length (dates d) \<and>
     length (volume (stock_data_of d)) = length (dates d)"

definition supported :: "string set" where
  "supported = {''daily'', ''weekly'', ''monthly''}"

text \<open>The bucket boundary of a daily date for the weekly and the monthly granularity: the
  end of its week, by the formula of the source, and the end of its month.\<close>

definition bucket_boundary :: "string \<Rightarrow> date \<Rightarrow> date" where
  "bucket_boundary timeframe t = (if timeframe = ''weekly'' then week_end_of t else month_end t)"

text \<open>The loops of \<^verbatim>\<open>map_signals_to_timeframe\<close> seen from one signal series: what one
  pass of the inner loop does to the series (\<open>write_one\<close>), one pass of the outer loop
  (\<open>remap_step\<close>), and the whole loop from the zero series (\<open>remap_series\<close>).\<close>

definition write_one :: "real list \<Rightarrow> nat \<Rightarrow> nat \<Rightarrow> real list \<Rightarrow> real list" where
  "write_one signal_values i resampled_idx out =
     (if i < length signal_values \<and> signal_values ! i \<noteq> 0
      then out[resampled_idx := signal_values ! i] else out)"

definition remap_step ::
  "string \<Rightarrow> date list \<Rightarrow> real list \<Rightarrow> nat \<times> date \<Rightarrow> real list \<Rightarrow> real list" where
  "remap_step timeframe resampled_dates signal_values p out =
     (case resampled_index timeframe resampled_dates (snd p) of
        None \<Rightarrow> out
      | Some resampled_idx \<Rightarrow> write_one signal_values (fst p) resampled_idx out)"

definition remap_series :: "string \<Rightarrow> date list \<Rightarrow> date list \<Rightarrow> real list \<Rightarrow> real list" where
  "remap_series timeframe resampled_dates original_dates signal_values =
     fold (remap_step timeframe resampled_dates signal_values) (enumerate 0 original_dates)
       (replicate (length resampled_dates) 0)"

text \<open>A daily position with its date writes to slot \<open>k\<close> when the series has a nonzero
  entry there and the date is located at \<open>k\<close>; \<open>writers\<close> lists these positions in the
  order of the daily axis.\<close>

definition writes_to ::
  "string \<Rightarrow> date list \<Rightarrow> real list \<Rightarrow> nat \<Rightarrow> nat \<times> date \<Rightarrow> bool" where
  "writes_to timeframe rd vals k p \<longleftrightarrow>
     fst p < length vals \<and> vals ! fst p \<noteq> 0 \<and> resampled_index timeframe rd (snd p) = Some k"

definition writers ::
  "string \<Rightarrow> date list \<Rightarrow> date list \<Rightarrow> real list \<Rightarrow> nat \<Rightarrow> (nat \<times> date) list" where
  "writers timeframe resampled_dates original_dates signal_values k =
     filter (writes_to timeframe resampled_dates signal_values k) (enumerate 0 original_dates)"

text \<open>The frame that \<^verbatim>\<open>resample_data_to_timeframe\<close> builds from a dataset, and the
  frame after resampling, aggregation and \<^verbatim>\<open>dropna\<close>: its index is the bucket axis.\<close>

definition frame_of :: "chart_data \<Rightarrow> real row list" where
  "frame_of d = zip (dates d) (zip (open (stock_data_of d)) (zip (high (stock_data_of d))
                   (zip (low (stock_data_of d)) (zip (close (stock_data_of d))
                      (volume (stock_data_of d))))))"

definition resampled_frame :: "string \<Rightarrow> chart_data \<Rightarrow> real row list" where
  "resampled_frame timeframe d =
     dropna (resample_agg (if timeframe = ''weekly'' then ''W-FRI'' else ''M'') (frame_of d))"

text \<open>The start of the interval that the composite loop computes for a bucket.\<close>

definition period_start :: "string \<Rightarrow> date \<Rightarrow> date" where
  "period_start timeframe b = (if timeframe = ''weekly'' then add_days (- 6) b else replace_day1 b)"

text \<open>The interval of a bucket, in the words of the specification: for the weekly
  granularity the days from six days before the boundary up to the boundary, counted in
  days; for the monthly granularity the dates from the first day of the month of the
  boundary up to the boundary. \<open>interval_records\<close> lists, in the order of the daily axis,
  the positions below \<open>n\<close>, the length of the composite series, whose date lies in the
  interval: the daily records there that carry a composite value.\<close>

definition in_bucket_interval :: "string \<Rightarrow> date \<Rightarrow> date \<Rightarrow> bool" where
  "in_bucket_interval timeframe b t \<longleftrightarrow>
     (if timeframe = ''weekly''
      then toordinal b - 6 \<le> toordinal t \<and> toordinal t \<le> toordinal b
      else (fst b, fst (snd b), 1) \<le> t \<and> t \<le> b)"

definition interval_records :: "string \<Rightarrow> date list \<Rightarrow> nat \<Rightarrow> date \<Rightarrow> nat list" where
  "interval_records timeframe ds n b =
     filter (\<lambda>j. j < n \<and> in_bucket_interval timeframe b (ds ! j)) [0 ..< length ds]"

text \<open>A well-formed dataset, after the data model of the specification: parsable dates in
  strictly ascending order, and every price column, signal series and indicator series as
  long as the date axis; the names of a dictionary are distinct.\<close>

definition well_formed :: "chart_data \<Rightarrow> bool" where
  "well_formed d \<longleftrightarrow>
     list_all valid_date (dates d) \<and> sorted_wrt (<) (dates d) \<and> columns_aligned d
     \<and> distinct (map fst (signals d))
     \<and> list_all (\<lambda>s. length (snd s) = length (dates d)) (signals d)
     \<and> distinct (map fst (indicators d))
     \<and> list_all (\<lambda>s. length (snd s) = length (dates d)) (indicators d)"

text \<open>The positions of the daily records that contribute to a bucket, in the order of the
  daily axis, and the rows of a frame that fall into the bin of a label.\<close>

definition bucket_records :: "string \<Rightarrow> date list \<Rightarrow> date \<Rightarrow> nat list" where
  "bucket_records timeframe ds b =
     filter (\<lambda>i. bucket_boundary timeframe (ds ! i) = b) [0 ..< length ds]"

definition bin_group :: "string \<Rightarrow> real row list \<Rightarrow> date \<Rightarrow> real row list" where
  "bin_group rule s b = filter (\<lambda>r. rollforward rule (fst r) = b) s"

text \<open>The bar that the aggregation gives for a label whose bin is not empty.\<close>

definition agg_row :: "string \<Rightarrow> real row list \<Rightarrow> date \<Rightarrow> real row" where
  "agg_row rule s b =
     (b, the (agg_first (map row_open (bin_group rule s b))),
         the (agg_max (map row_high (bin_group rule s b))),
         the (agg_min (map row_low (bin_group rule s b))),
         the (agg_last (map row_close (bin_group rule s b))),
         agg_sum (map row_volume (bin_group rule s b)))"

text \<open>The bucket of an ascending axis that a daily date maps to: the bucket whose boundary
  is the greatest one at or before the bucket boundary of the date. When the boundary of the
  date is on the axis this is the bucket with that boundary. \<open>bucket_writers\<close> lists, in the
  order of the daily axis, the positions of a signal series that hold a nonzero entry and
  whose date maps to bucket \<open>k\<close>.\<close>

definition located_at :: "string \<Rightarrow> date list \<Rightarrow> date \<Rightarrow> nat \<Rightarrow> bool" where
  "located_at timeframe rd t k \<longleftrightarrow>
     k < length rd \<and> rd ! k \<le> bucket_boundary timeframe t
     \<and> list_all (\<lambda>b. b \<le> bucket_boundary timeframe t \<longrightarrow> b \<le> rd ! k) rd"

definition bucket_writers ::
  "string \<Rightarrow> date list \<Rightarrow> date list \<Rightarrow> real list \<Rightarrow> nat \<Rightarrow> nat list" where
  "bucket_writers timeframe rd ds vals k =
     filter (\<lambda>i. i < length vals \<and> vals ! i \<noteq> 0 \<and> located_at timeframe rd (ds ! i) k)
       [0 ..< length ds]"

text \<open>The Friday of the ISO week, Monday to Sunday, that contains a date, in the words of
  the specification: the Monday of that week is \<open>weekday\<close> days before the date and its
  Friday four days after the Monday.\<close>

definition iso_week_friday :: "date \<Rightarrow> date" where
  "iso_week_friday t = add_days (4 - weekday t) t"

text \<open>The number of the week, running from Saturday to Friday, that contains a date.\<close>

definition sat_fri_week :: "date \<Rightarrow> int" where
  "sat_fri_week t = (toordinal t + 1) div 7"

text \<open>The path that the client reads for a symbol; the file holds no data when it is
  missing, unreadable or loads to an empty (false) value; the cache holds no data for a
  symbol when it has no entry or an empty one.\<close>

definition symbol_path :: "client \<Rightarrow> string \<Rightarrow> string" where
  "symbol_path c symbol' = path_join (data_dir c) (get_symbol_filename symbol')"

definition no_data_in_file :: "filesystem \<Rightarrow> client \<Rightarrow> string \<Rightarrow> bool" where
  "no_data_in_file fs c symbol' =
     (case fs (symbol_path c symbol') of
        NoFile \<Rightarrow> True | Unreadable \<Rightarrow> True | Loaded v \<Rightarrow> \<not> truthy v)"

definition no_data_in_cache :: "client \<Rightarrow> string \<Rightarrow> bool" where
  "no_data_in_cache c symbol' =
     (case cache c symbol' of None \<Rightarrow> True | Some v \<Rightarrow> \<not> truthy v)"

subsection \<open>Example datasets\<close>

text \<open>Two trading days of one week; the signal and the composite series have one entry
  only, one fewer than the date axis.\<close>

definition ex_short_signal :: chart_data where
  "ex_short_signal = \<lparr>symbol = ''X'',
     dates = [(2024, 1, 2), (2024, 1, 4)],
     data = Some \<lparr>open = [10, 12], high = [11, 13], low = [9, 10], close = [11, 12],
                  volume = [100, 200]\<rparr>,
     signals = [(''macd_signal'', [1])],
     indicators = [(''Final_Composite_Value'', [0.2])],
     trendlines = Some [], last_updated = None, error = None\<rparr>"

text \<open>The same days with a volume column of one entry.\<close>

definition ex_short_volume :: chart_data where
  "ex_short_volume = \<lparr>symbol = ''X'',
     dates = [(2024, 1, 2), (2024, 1, 4)],
     data = Some \<lparr>open = [10, 12], high = [11, 13], low = [9, 10], close = [11, 12],
                  volume = [100]\<rparr>,
     signals = [(''macd_signal'', [1, 0])],
     indicators = [(''Final_Composite_Value'', [0.2, 0.3])],
     trendlines = Some [], last_updated = None, error = None\<rparr>"

text \<open>Three trading days of one week and one day of the next.\<close>

definition ex_week :: chart_data where
  "ex_week = \<lparr>symbol = ''X'',
     dates = [(2024, 1, 2), (2024, 1, 3), (2024, 1, 4), (2024, 1, 9)],
     data = Some \<lparr>open = [10, 11, 9, 12], high = [12, 13, 11, 14], low = [9, 10, 8, 11],
                  close = [11, 9, 12, 13], volume = [100, 200, 300, 400]\<rparr>,
     signals = [(''macd_signal'', [0, 1, - 1, 0])],
     indicators = [(''Final_Composite_Value'', [0.2, 0.6, 0.9, 0.4])],
     trendlines = Some [], last_updated = None, error = None\<rparr>"

text \<open>Two trading days of one week, with a second indicator beside the composite value.\<close>

definition ex_rsi :: chart_data where
  "ex_rsi = \<lparr>symbol = ''X'',
     dates = [(2024, 1, 2), (2024, 1, 4)],
     data = Some \<lparr>open = [10, 12], high = [11, 13], low = [9, 10], close = [11, 12],
                  volume = [100, 200]\<rparr>,
     signals = [(''macd_signal'', [1, 0])],
     indicators = [(''Final_Composite_Value'', [0.2, 0.3]), (''rsi'', [40, 60])],
     trendlines = Some [], last_updated = None, error = None\<rparr>"

text \<open>Two trading days of one week, none in the next week and one in the week after.\<close>

definition ex_gap :: chart_data where
  "ex_gap = \<lparr>symbol = ''X'',
     dates = [(2024, 1, 2), (2024, 1, 3), (2024, 1, 16)],
     data = Some \<lparr>open = [10, 11, 20], high = [12, 13, 21], low = [9, 8, 19],
                  close = [11, 12, 20], volume = [100, 200, 400]\<rparr>,
     signals = [], indicators = [],
     trendlines = Some [], last_updated = None, error = None\<rparr>"

text \<open>The last two trading days of January 2024 and two of February.\<close>

definition ex_two_months :: chart_data where
  "ex_two_months = \<lparr>symbol = ''X'',
     dates = [(2024, 1, 30), (2024, 1, 31), (2024, 2, 1), (2024, 2, 15)],
     data = Some \<lparr>open = [10, 11, 9, 12], high = [12, 13, 11, 14], low = [9, 10, 8, 11],
                  close = [11, 9, 12, 13], volume = [100, 200, 300, 400]\<rparr>,
     signals = [(''macd_signal'', [1, 0, - 1, 1])],
     indicators = [(''Final_Composite_Value'', [0.1, 0.2, 0.3, 0.4])],
     trendlines = Some [], last_updated = None, error = None\<rparr>"

text \<open>One trading day in each of two weeks, with a composite series that ends after the
  first day.\<close>

definition ex_short_composite :: chart_data where
  "ex_short_composite = \<lparr>symbol = ''X'',
     dates = [(2024, 1, 2), (2024, 1, 9)],
     data = Some \<lparr>open = [10, 12], high = [11, 13], low = [9, 10], close = [11, 12],
                  volume = [100, 200]\<rparr>,
     signals = [],
     indicators = [(''Final_Composite_Value'', [0.7])],
     trendlines = Some [], last_updated = None, error = None\<rparr>"

text \<open>Two trading days of one week whose volumes add up to one more than the greatest
  64-bit integer.\<close>

definition ex_big_volume :: chart_data where
  "ex_big_volume = \<lparr>symbol = ''X'',
     dates = [(2024, 1, 2), (2024, 1, 3)],
     data = Some \<lparr>open = [10, 11], high = [12, 13], low = [9, 8], close = [11, 12],
                  volume = [9223372036854775807, 1]\<rparr>,
     signals = [], indicators = [],
     trendlines = Some [], last_updated = None, error = None\<rparr>"

text \<open>A data directory with one file for the symbol \<^verbatim>\<open>^KS11\<close>, the same directory after
  the file is removed, and a client that was asked for the symbol while the file was there.\<close>

definition fs_with_file :: filesystem where
  "fs_with_file p =
     (if p = ''data/signals_KS11.json''
      then Loaded (JArr [JObj [(''date'', JStr ''2024-01-02''), (''close'', JNum 10)]])
      else NoFile)"

definition fs_without_file :: filesystem where
  "fs_without_file p = NoFile"

definition client_after_load :: client where
  "client_after_load = snd (get_signals_data fs_with_file (new_client ''data'') ''^KS11'' ''1y'')"

section \<open>Facts about the calendar\<close>

lemma div_step:
  assumes "0 < (k::int)"
  shows "(a + 1) div k = a div k + (if (a + 1) mod k = 0 then 1 else 0)"
proof -
  define q r where "q = a div k" and "r = a mod k"
  have a: "a = q * k + r" and r: "0 \<le> r" "r < k"
    using assms by (simp_all add: q_def r_def)
  show ?thesis
  proof (cases "r + 1 = k")
    case True
    then have "a + 1 = (q + 1) * k" using a by (simp add: algebra_simps)
    then show ?thesis using assms q_def by simp
  next
    case False
    with r have r1: "0 \<le> r + 1" "r + 1 < k" by simp_all
    have e: "a + 1 = q * k + (r + 1)" using a by simp
    have "(a + 1) div k = q"
      unfolding e using r1 assms by simp
    moreover have "(a + 1) mod k = r + 1"
      unfolding e using r1 assms by simp
    ultimately show ?thesis using r q_def by simp
  qed
qed

lemma mod_100_4: "(y::int) mod 100 = 0 \<Longrightarrow> y mod 4 = 0"
  by presburger

lemma mod_400_100: "(y::int) mod 400 = 0 \<Longrightarrow> y mod 100 = 0"
proof -
  assume "y mod 400 = 0"
  then have "400 dvd y" by (simp add: mod_eq_0_iff_dvd)
  moreover have "(100::int) dvd 400" by simp
  ultimately have "100 dvd y" by (rule dvd_trans[rotated])
  then show ?thesis by (simp add: mod_eq_0_iff_dvd)
qed

lemma leap_count:
  "(if y mod 4 = 0 then 1 else 0) - (if y mod 100 = 0 then 1 else 0)
      + (if y mod 400 = 0 then 1 else 0) = (if is_leap y then 1 else (0::int))"
proof -
  define a b c where "a \<longleftrightarrow> y mod 4 = 0" and "b \<longleftrightarrow> y mod 100 = 0" and "c \<longleftrightarrow> y mod 400 = 0"
  have ba: "b \<longrightarrow> a" and cb: "c \<longrightarrow> b"
    unfolding a_def b_def c_def using mod_100_4[of y] mod_400_100[of y] by blast+
  have "(if a then 1 else 0) - (if b then 1 else 0) + (if c then 1 else 0)
          = (if a \<and> (\<not> b \<or> c) then 1 else (0::int))"
    using ba cb by (cases a; cases b; cases c) simp_all
  then show ?thesis
    unfolding a_def b_def c_def is_leap_def .
qed

lemma days_before_year_Suc:
  "days_before_year (y + 1) = days_before_year y + (if is_leap y then 366 else 365)"
proof -
  have d4: "y div 4 = (y - 1) div 4 + (if y mod 4 = 0 then 1 else 0)"
    using div_step[of 4 "y - 1"] by simp
  have d100: "y div 100 = (y - 1) div 100 + (if y mod 100 = 0 then 1 else 0)"
    using div_step[of 100 "y - 1"] by simp
  have d400: "y div 400 = (y - 1) div 400 + (if y mod 400 = 0 then 1 else 0)"
    using div_step[of 400 "y - 1"] by simp
  have "days_before_year (y + 1) = 365 * y + y div 4 - y div 100 + y div 400"
    by (simp add: days_before_year_def)
  also have "\<dots> = days_before_year y + 365 + ((if y mod 4 = 0 then 1 else 0)
        - (if y mod 100 = 0 then 1 else 0) + (if y mod 400 = 0 then 1 else 0))"
    unfolding days_before_year_def d4 d100 d400 by (simp only: algebra_simps)
  also have "\<dots> = days_before_year y + 365 + (if is_leap y then 1 else 0)"
    by (simp only: leap_count)
  also have "\<dots> = days_before_year y + (if is_leap y then 366 else 365)"
    by (cases "is_leap y") simp_all
  finally show ?thesis .
qed

lemma days_before_month_Suc:
  assumes "1 \<le> m" "m < 12"
  shows "days_before_month y (m + 1) = days_before_month y m + days_in_month y m"
proof -
  from assms have "m = 1 \<or> m = 2 \<or> m = 3 \<or> m = 4 \<or> m = 5 \<or> m = 6 \<or> m = 7 \<or> m = 8 \<or> m = 9 \<or> m = 10 \<or> m = 11"
    by arith
  then show ?thesis
    by (elim disjE) (simp_all add: days_before_month_def days_in_month_def)
qed

lemma days_before_month_12: "days_before_month y 12 + 31 = (if is_leap y then 366 else 365)"
  by (simp add: days_before_month_def)

lemma days_in_month_pos: "1 \<le> days_in_month y m"
  by (simp add: days_in_month_def)

lemma next_day_ok:
  assumes "valid_date t"
  shows "valid_date (next_day t) \<and> toordinal (next_day t) = toordinal t + 1"
proof -
  obtain y m d where t: "t = (y, m, d)" by (cases t) auto
  from assms t have v: "1 \<le> m" "m \<le> 12" "1 \<le> d" "d \<le> days_in_month y m"
    by (simp_all add: valid_date_def)
  show ?thesis
  proof (cases "d < days_in_month y m")
    case True
    with v t show ?thesis by (simp add: next_day_def valid_date_def toordinal_def)
  next
    case False
    with v have d: "d = days_in_month y m" by simp
    show ?thesis
    proof (cases "m < 12")
      case True
      with v d t days_in_month_pos[of y "m+1"] show ?thesis
        by (simp add: next_day_def valid_date_def toordinal_def days_before_month_Suc)
    next
      case False
      with v have m: "m = 12" by simp
      with d have d31: "d = 31" by (simp add: days_in_month_def)
      have "days_before_month (y + 1) 1 = 0" by (simp add: days_before_month_def)
      with m d31 t days_before_month_12[of y] days_before_year_Suc[of y] show ?thesis
        by (simp add: next_day_def valid_date_def toordinal_def days_in_month_def split: if_splits)
    qed
  qed
qed

lemma prev_day_ok:
  assumes "valid_date t"
  shows "valid_date (prev_day t) \<and> toordinal (prev_day t) = toordinal t - 1"
proof -
  obtain y m d where t: "t = (y, m, d)" by (cases t) auto
  from assms t have v: "1 \<le> m" "m \<le> 12" "1 \<le> d" "d \<le> days_in_month y m"
    by (simp_all add: valid_date_def)
  show ?thesis
  proof (cases "1 < d")
    case True
    with v t show ?thesis by (simp add: prev_day_def valid_date_def toordinal_def)
  next
    case False
    with v have d: "d = 1" by simp
    show ?thesis
    proof (cases "1 < m")
      case True
      with v have "1 \<le> m - 1" "m - 1 < 12" by simp_all
      from days_before_month_Suc[OF this, of y] True v d t days_in_month_pos[of y "m - 1"] show ?thesis
        by (simp add: prev_day_def valid_date_def toordinal_def)
    next
      case False
      with v have m: "m = 1" by simp
      have "days_before_month y 1 = 0" by (simp add: days_before_month_def)
      with m d t days_before_month_12[of "y - 1"] days_before_year_Suc[of "y - 1"] show ?thesis
        by (simp add: prev_day_def valid_date_def toordinal_def days_in_month_def split: if_splits)
    qed
  qed
qed

lemma funpow_next_day:
  "valid_date t \<Longrightarrow> valid_date ((next_day ^^ n) t) \<and> toordinal ((next_day ^^ n) t) = toordinal t + int n"
  by (induction n) (simp_all add: next_day_ok)

lemma funpow_prev_day:
  "valid_date t \<Longrightarrow> valid_date ((prev_day ^^ n) t) \<and> toordinal ((prev_day ^^ n) t) = toordinal t - int n"
  by (induction n) (simp_all add: prev_day_ok)

lemma add_days_ok:
  "valid_date t \<Longrightarrow> valid_date (add_days k t) \<and> toordinal (add_days k t) = toordinal t + k"
  using funpow_next_day[of t "nat k"] funpow_prev_day[of t "nat (- k)"]
  by (simp add: add_days_def)

lemma days_before_year_mono: "y \<le> y' \<Longrightarrow> days_before_year y \<le> days_before_year y'"
proof (induction y' rule: int_ge_induct)
  case base
  show ?case by simp
next
  case (step i)
  have "days_before_year i \<le> days_before_year (i + 1)"
    by (simp add: days_before_year_Suc)
  with step show ?case by simp
qed

lemma days_before_month_bounds:
  assumes "1 \<le> m" "m \<le> 12"
  shows "0 \<le> days_before_month y m
       \<and> days_before_month y m + days_in_month y m \<le> (if is_leap y then 366 else 365)"
proof -
  from assms have "m = 1 \<or> m = 2 \<or> m = 3 \<or> m = 4 \<or> m = 5 \<or> m = 6 \<or> m = 7 \<or> m = 8 \<or> m = 9 \<or> m = 10 \<or> m = 11 \<or> m = 12"
    by arith
  then show ?thesis
    by (elim disjE) (simp_all add: days_before_month_def days_in_month_def)
qed

lemma days_before_month_mono:
  assumes "1 \<le> m" "m < m'" "m' \<le> 12"
  shows "days_before_month y m + days_in_month y m \<le> days_before_month y m'"
proof -
  have "m + 1 \<le> m'" using assms by simp
  then show ?thesis using assms(3)
  proof (induction m' rule: int_ge_induct)
    case base
    with assms show ?case by (simp add: days_before_month_Suc)
  next
    case (step i)
    then have "1 \<le> i" "i < 12" using assms(1) by simp_all
    from days_before_month_Suc[OF this, of y] step days_in_month_pos[of y i]
    show ?case by simp
  qed
qed

lemma toordinal_less:
  assumes "valid_date s" "valid_date t" "s < t"
  shows "toordinal s < toordinal t"
proof -
  obtain y m d where s: "s = (y, m, d)" by (cases s) auto
  obtain y' m' d' where t: "t = (y', m', d')" by (cases t) auto
  from assms s t have v: "1 \<le> m" "m \<le> 12" "1 \<le> d" "d \<le> days_in_month y m"
     "1 \<le> m'" "m' \<le> 12" "1 \<le> d'" "d' \<le> days_in_month y' m'"
    by (simp_all add: valid_date_def)
  from assms(3) s t have "y < y' \<or> (y = y' \<and> m < m') \<or> (y = y' \<and> m = m' \<and> d < d')"
    unfolding less_prod_def by simp linarith
  then consider "y < y'" | "y = y'" "m < m'" | "y = y'" "m = m'" "d < d'"
    by blast
  then show ?thesis
  proof cases
    case 1
    have "toordinal s \<le> days_before_year y + (days_before_month y m + days_in_month y m)"
      using v s by (simp add: toordinal_def)
    also have "\<dots> \<le> days_before_year y + (if is_leap y then 366 else 365)"
      using days_before_month_bounds[of m y] v by simp
    also have "\<dots> = days_before_year (y + 1)"
      by (simp add: days_before_year_Suc)
    also have "\<dots> \<le> days_before_year y'"
      using 1 by (intro days_before_year_mono) simp
    also have "\<dots> < toordinal t"
      using days_before_month_bounds[of m' y'] v t by (simp add: toordinal_def)
    finally show ?thesis .
  next
    case 2
    with days_before_month_mono[of m m' y] v s t show ?thesis
      by (simp add: toordinal_def)
  next
    case 3
    with s t show ?thesis by (simp add: toordinal_def)
  qed
qed

lemma toordinal_less_iff:
  assumes "valid_date s" "valid_date t"
  shows "toordinal s < toordinal t \<longleftrightarrow> s < t"
proof
  assume l: "toordinal s < toordinal t"
  show "s < t"
  proof (rule ccontr)
    assume "\<not> s < t"
    then have "t < s \<or> t = s" by auto
    then show False using toordinal_less[OF assms(2) assms(1)] l by auto
  qed
qed (rule toordinal_less[OF assms])

lemma toordinal_le_iff:
  assumes "valid_date s" "valid_date t"
  shows "toordinal s \<le> toordinal t \<longleftrightarrow> s \<le> t"
  using toordinal_less_iff[OF assms(2) assms(1)] by (simp add: not_less[symmetric])

lemma toordinal_inj:
  assumes "valid_date s" "valid_date t" "toordinal s = toordinal t"
  shows "s = t"
  using toordinal_less_iff[OF assms(1,2)] toordinal_less_iff[OF assms(2,1)] assms(3)
  by (metis less_irrefl linorder_neqE)

section \<open>Facts about the end of the week\<close>

lemma week_arith: "(o' :: int) + (4 - (o' + 6) mod 7) mod 7 = 7 * ((o' + 1) div 7) + 5"
proof -
  define q r where "q = (o' + 1) div 7" and "r = (o' + 1) mod 7"
  have o: "o' = 7 * q + r - 1" and r: "0 \<le> r" "r < 7"
    by (simp_all add: q_def r_def)
  have "(o' + 6) mod 7 = (r + 5 + 7 * q) mod 7"
    by (simp add: o algebra_simps)
  also have "\<dots> = (r + 5) mod 7"
    by (rule mod_mult_self2)
  finally have wd: "(o' + 6) mod 7 = (r + 5) mod 7" .
  from r have "r = 0 \<or> r = 1 \<or> r = 2 \<or> r = 3 \<or> r = 4 \<or> r = 5 \<or> r = 6" by arith
  then have "r + (4 - (r + 5) mod 7) mod 7 = 6"
    by (elim disjE) simp_all
  then show ?thesis
    unfolding wd q_def[symmetric] by (simp add: o)
qed

lemma week_end_of_ok:
  assumes "valid_date t"
  shows "valid_date (week_end_of t)"
    and "toordinal (week_end_of t) = toordinal t + (4 - weekday t) mod 7"
    and "toordinal (week_end_of t) = 7 * sat_fri_week t + 5"
  using add_days_ok[OF assms, of "(4 - weekday t) mod 7"] week_arith[of "toordinal t"]
  by (simp_all add: week_end_of_def weekday_def sat_fri_week_def)

lemma weekday_range: "0 \<le> weekday t \<and> weekday t < 7"
  by (simp add: weekday_def)

lemma week_end_of_eq_iff:
  assumes "valid_date t" "valid_date t'"
  shows "week_end_of t = week_end_of t' \<longleftrightarrow> sat_fri_week t = sat_fri_week t'"
proof
  assume "week_end_of t = week_end_of t'"
  then have "toordinal (week_end_of t) = toordinal (week_end_of t')" by simp
  then show "sat_fri_week t = sat_fri_week t'"
    unfolding week_end_of_ok(3)[OF assms(1)] week_end_of_ok(3)[OF assms(2)] by simp
next
  assume "sat_fri_week t = sat_fri_week t'"
  then have "toordinal (week_end_of t) = toordinal (week_end_of t')"
    unfolding week_end_of_ok(3)[OF assms(1)] week_end_of_ok(3)[OF assms(2)] by simp
  then show "week_end_of t = week_end_of t'"
    by (rule toordinal_inj[OF week_end_of_ok(1)[OF assms(1)] week_end_of_ok(1)[OF assms(2)]])
qed

lemma div7_eq_iff: "(x::int) div 7 = q \<longleftrightarrow> 7 * q \<le> x \<and> x < 7 * q + 7"
proof
  assume "x div 7 = q"
  then have "x = 7 * q + x mod 7" by (metis mult_div_mod_eq)
  moreover have "0 \<le> x mod 7" "x mod 7 < 7" by simp_all
  ultimately show "7 * q \<le> x \<and> x < 7 * q + 7" by linarith
next
  assume a: "7 * q \<le> x \<and> x < 7 * q + 7"
  have x: "x = (x - 7 * q) + q * 7" by simp
  have "x div 7 = (x - 7 * q) div 7 + q" by (subst x) (simp only: div_mult_self1[OF _] div_add_self2 div_mult_self3) 
  moreover have "(x - 7 * q) div 7 = 0" using a by (intro div_pos_pos_trivial) simp_all
  ultimately show "x div 7 = q" by simp
qed

section \<open>Facts about the bin labels of a resampling rule\<close>

lemma valid_date_month_end: "valid_date t \<Longrightarrow> valid_date (month_end t)"
  by (cases t) (auto simp: valid_date_def month_end_def days_in_month_pos)

lemma month_end_of_index_month_index:
  assumes "valid_date t"
  shows "month_end_of_index (month_index t) = month_end t"
proof -
  obtain y m d where t: "t = (y, m, d)" by (cases t) auto
  from assms t have m: "1 \<le> m" "m \<le> 12" by (simp_all add: valid_date_def)
  have e: "12 * y + m - 1 = (m - 1) + y * 12" by simp
  have "(12 * y + m - 1) div 12 = y" unfolding e using m by simp
  moreover have "(12 * y + m - 1) mod 12 = m - 1" unfolding e using m by simp
  ultimately show ?thesis
    by (simp add: month_end_of_index_def month_index_def month_end_def t Let_def)
qed

lemma month_index_month_end: "month_index (month_end t) = month_index t"
  by (cases t) (simp add: month_index_def month_end_def)

lemma month_end_of_index_less:
  assumes "q < q'"
  shows "month_end_of_index q < month_end_of_index q'"
proof -
  have d: "(q - 1) div 12 \<le> (q' - 1) div 12" using assms by (intro zdiv_mono1) simp_all
  have "(q - 1) div 12 < (q' - 1) div 12 \<or>
        ((q - 1) div 12 = (q' - 1) div 12 \<and> (q - 1) mod 12 < (q' - 1) mod 12)"
  proof (cases "(q - 1) div 12 = (q' - 1) div 12")
    case True
    have "q - 1 = 12 * ((q - 1) div 12) + (q - 1) mod 12" by simp
    moreover have "q' - 1 = 12 * ((q' - 1) div 12) + (q' - 1) mod 12" by simp
    ultimately have "(q - 1) mod 12 < (q' - 1) mod 12" using assms True by linarith
    with True show ?thesis by simp
  next
    case False
    with d show ?thesis by simp
  qed
  then show ?thesis
    by (auto simp: month_end_of_index_def Let_def less_prod_def)
qed

lemma month_index_mono:
  assumes "valid_date s" "valid_date t" "s \<le> t"
  shows "month_index s \<le> month_index t"
proof -
  obtain y m d where s: "s = (y, m, d)" by (cases s) auto
  obtain y' m' d' where t: "t = (y', m', d')" by (cases t) auto
  from assms s t have v: "1 \<le> m" "m \<le> 12" "1 \<le> m'" "m' \<le> 12"
    by (simp_all add: valid_date_def)
  from assms(3) s t have "y < y' \<or> (y = y' \<and> m \<le> m')"
    unfolding less_eq_prod_def by simp linarith
  with v show ?thesis by (auto simp: month_index_def s t)
qed

lemma sat_fri_week_mono:
  assumes "valid_date s" "valid_date t" "s \<le> t"
  shows "sat_fri_week s \<le> sat_fri_week t"
proof -
  have "toordinal s \<le> toordinal t" using toordinal_le_iff[OF assms(1,2)] assms(3) by simp
  then show ?thesis unfolding sat_fri_week_def by (intro zdiv_mono1) simp_all
qed

lemma week_label_eq:
  assumes "valid_date s" "valid_date t" "sat_fri_week s \<le> sat_fri_week t"
  shows "add_days (7 * int (nat (sat_fri_week t - sat_fri_week s))) (week_end_of s) = week_end_of t"
proof -
  note ws = week_end_of_ok[OF assms(1)]
  note wt = week_end_of_ok[OF assms(2)]
  define k where "k = 7 * int (nat (sat_fri_week t - sat_fri_week s))"
  have kv: "k = 7 * (sat_fri_week t - sat_fri_week s)" using assms(3) by (simp add: k_def)
  have a: "valid_date (add_days k (week_end_of s))"
      "toordinal (add_days k (week_end_of s)) = toordinal (week_end_of s) + k"
    using add_days_ok[OF ws(1), of k] by simp_all
  have "toordinal (add_days k (week_end_of s)) = toordinal (week_end_of s) + k"
    by (rule a(2))
  also have "\<dots> = 7 * sat_fri_week s + 5 + 7 * (sat_fri_week t - sat_fri_week s)"
    by (simp only: ws(3) kv)
  also have "\<dots> = 7 * sat_fri_week t + 5" by simp
  also have "\<dots> = toordinal (week_end_of t)" by (simp only: wt(3))
  finally have "toordinal (add_days k (week_end_of s)) = toordinal (week_end_of t)" .
  then have "add_days k (week_end_of s) = week_end_of t"
    by (rule toordinal_inj[OF a(1) wt(1)])
  then show ?thesis unfolding k_def .
qed

lemma week_labels_count:
  assumes "valid_date s" "valid_date t"
  shows "(toordinal (week_end_of t) - toordinal (week_end_of s)) div 7
           = sat_fri_week t - sat_fri_week s"
proof -
  have "toordinal (week_end_of t) - toordinal (week_end_of s)
          = (sat_fri_week t - sat_fri_week s) * 7"
    using week_end_of_ok(3)[OF assms(1)] week_end_of_ok(3)[OF assms(2)] by simp
  then show ?thesis by simp
qed

lemma sorted_bounds:
  assumes "sorted ds" "u \<in> set ds"
  shows "hd ds \<le> u \<and> u \<le> last ds"
proof -
  from assms(2) obtain i where i: "i < length ds" "ds ! i = u"
    by (auto simp: in_set_conv_nth)
  then have ne: "ds \<noteq> []" by auto
  have "ds ! 0 \<le> ds ! i" using assms(1) i(1) by (intro sorted_nth_mono) simp_all
  moreover have "ds ! i \<le> ds ! (length ds - 1)"
    using assms(1) i(1) by (intro sorted_nth_mono) simp_all
  ultimately show ?thesis using i(2) ne by (simp add: hd_conv_nth last_conv_nth)
qed

lemma sorted_wrt_map_upt:
  assumes "\<And>i j. i < j \<Longrightarrow> j < n \<Longrightarrow> f i < f j"
  shows "sorted_wrt (<) (map f [0 ..< n])"
proof (subst sorted_wrt_iff_nth_less, intro allI impI)
  fix i j assume ij: "i < j" "j < length (map f [0 ..< n])"
  then have "j < n" "i < n" by simp_all
  then have "map f [0 ..< n] ! i = f i" "map f [0 ..< n] ! j = f j" by simp_all
  with assms[OF ij(1) \<open>j < n\<close>] show "map f [0 ..< n] ! i < map f [0 ..< n] ! j" by simp
qed

lemma bin_labels_weekly:
  assumes vd: "list_all valid_date ds" and srt: "sorted ds" and ne: "ds \<noteq> []"
  shows "sorted_wrt (<) (bin_labels ''W-FRI'' (week_end_of (hd ds)) (week_end_of (last ds)))
       \<and> week_end_of ` set ds \<subseteq> set (bin_labels ''W-FRI'' (week_end_of (hd ds)) (week_end_of (last ds)))"
proof -
  let ?s = "hd ds" and ?t = "last ds"
  have vs: "valid_date ?s" and vt: "valid_date ?t"
    using vd ne by (simp_all add: list_all_iff)
  define n where "n = nat ((toordinal (week_end_of ?t) - toordinal (week_end_of ?s)) div 7) + 1"
  define f where "f = (\<lambda>k. add_days (7 * int k) (week_end_of ?s))"
  have nv: "n = nat (sat_fri_week ?t - sat_fri_week ?s) + 1"
    unfolding n_def week_labels_count[OF vs vt] ..
  have bl: "bin_labels ''W-FRI'' (week_end_of ?s) (week_end_of ?t) = map f [0 ..< n]"
    unfolding bin_labels_def n_def f_def by (simp only: simp_thms if_True)
  note ws = week_end_of_ok[OF vs]
  have ord: "\<And>k. valid_date (f k) \<and> toordinal (f k) = toordinal (week_end_of ?s) + 7 * int k"
    unfolding f_def using add_days_ok[OF ws(1)] by simp
  have s1: "sorted_wrt (<) (map f [0 ..< n])"
  proof (rule sorted_wrt_map_upt)
    fix i j :: nat assume ij: "i < j" "j < n"
    then have "toordinal (f i) < toordinal (f j)" using ord by simp
    then show "f i < f j" using toordinal_less_iff ord by blast
  qed
  have s2: "week_end_of ` set ds \<subseteq> set (map f [0 ..< n])"
  proof
    fix b assume "b \<in> week_end_of ` set ds"
    then obtain u where u: "u \<in> set ds" "b = week_end_of u" by blast
    have vu: "valid_date u" using vd u(1) by (simp add: list_all_iff)
    have su: "?s \<le> u" and ut: "u \<le> ?t" using sorted_bounds[OF srt u(1)] by simp_all
    have m1: "sat_fri_week ?s \<le> sat_fri_week u" by (rule sat_fri_week_mono[OF vs vu su])
    have m2: "sat_fri_week u \<le> sat_fri_week ?t" by (rule sat_fri_week_mono[OF vu vt ut])
    define k where "k = nat (sat_fri_week u - sat_fri_week ?s)"
    have kn: "k < n" unfolding k_def nv using m1 m2 by simp
    have "f k = b"
      unfolding u(2) f_def k_def by (rule week_label_eq[OF vs vu m1])
    with kn show "b \<in> set (map f [0 ..< n])"
      by (auto simp: image_iff intro!: bexI[of _ k])
  qed
  from s1 s2 show ?thesis unfolding bl by simp
qed

lemma bin_labels_monthly:
  assumes vd: "list_all valid_date ds" and srt: "sorted ds" and ne: "ds \<noteq> []"
  shows "sorted_wrt (<) (bin_labels ''M'' (month_end (hd ds)) (month_end (last ds)))
       \<and> month_end ` set ds \<subseteq> set (bin_labels ''M'' (month_end (hd ds)) (month_end (last ds)))"
proof -
  let ?s = "hd ds" and ?t = "last ds"
  have vs: "valid_date ?s" and vt: "valid_date ?t"
    using vd ne by (simp_all add: list_all_iff)
  define n where "n = nat (month_index (month_end ?t) - month_index (month_end ?s)) + 1"
  define f where "f = (\<lambda>k. month_end_of_index (month_index (month_end ?s) + int k))"
  have nv: "n = nat (month_index ?t - month_index ?s) + 1"
    unfolding n_def month_index_month_end ..
  have fv: "\<And>k. f k = month_end_of_index (month_index ?s + int k)"
    unfolding f_def month_index_month_end ..
  have w: "''M'' \<noteq> ''W-FRI''" by simp
  have bl: "bin_labels ''M'' (month_end ?s) (month_end ?t) = map f [0 ..< n]"
    unfolding bin_labels_def n_def f_def by (simp only: w if_False)
  have s1: "sorted_wrt (<) (map f [0 ..< n])"
  proof (rule sorted_wrt_map_upt)
    fix i j :: nat assume ij: "i < j" "j < n"
    then show "f i < f j" unfolding fv by (intro month_end_of_index_less) simp
  qed
  have s2: "month_end ` set ds \<subseteq> set (map f [0 ..< n])"
  proof
    fix b assume "b \<in> month_end ` set ds"
    then obtain u where u: "u \<in> set ds" "b = month_end u" by blast
    have vu: "valid_date u" using vd u(1) by (simp add: list_all_iff)
    have su: "?s \<le> u" and ut: "u \<le> ?t" using sorted_bounds[OF srt u(1)] by simp_all
    have m1: "month_index ?s \<le> month_index u" by (rule month_index_mono[OF vs vu su])
    have m2: "month_index u \<le> month_index ?t" by (rule month_index_mono[OF vu vt ut])
    define k where "k = nat (month_index u - month_index ?s)"
    have kn: "k < n" unfolding k_def nv using m1 m2 by simp
    have "month_index ?s + int k = month_index u" unfolding k_def using m1 by simp
    then have "f k = b"
      unfolding u(2) fv using month_end_of_index_month_index[OF vu] by simp
    with kn show "b \<in> set (map f [0 ..< n])"
      by (auto simp: image_iff intro!: bexI[of _ k])
  qed
  from s1 s2 show ?thesis unfolding bl by simp
qed

section \<open>Facts about the position of a date in the resampled axis\<close>

lemma get_loc_None_iff: "get_loc xs k = None \<longleftrightarrow> k \<notin> set xs"
  by (induction xs) auto

lemma get_loc_Some: "get_loc xs k = Some i \<Longrightarrow> i < length xs \<and> xs ! i = k"
proof (induction xs arbitrary: i)
  case Nil
  then show ?case by simp
next
  case (Cons x xs)
  then show ?case by (cases "x = k") auto
qed

lemma get_loc_distinct:
  "distinct xs \<Longrightarrow> i < length xs \<Longrightarrow> get_loc xs (xs ! i) = Some i"
proof (induction xs arbitrary: i)
  case Nil
  then show ?case by simp
next
  case (Cons x xs)
  show ?case
  proof (cases i)
    case 0
    then show ?thesis by simp
  next
    case (Suc j)
    with Cons.prems have "xs ! j \<in> set xs" "x \<notin> set xs" by simp_all
    then have "x \<noteq> xs ! j" by blast
    with Suc Cons show ?thesis by simp
  qed
qed

lemma searchsorted_le: "searchsorted xs v \<le> length xs"
  by (simp add: searchsorted_def length_takeWhile_le)

lemma searchsorted_below: "i < searchsorted xs v \<Longrightarrow> xs ! i < v"
  unfolding searchsorted_def
  using nth_length_takeWhile takeWhile_nth
  by (metis nth_mem set_takeWhileD)

lemma searchsorted_above:
  assumes "sorted xs" "searchsorted xs v \<le> j" "j < length xs"
  shows "v \<le> xs ! j"
proof -
  let ?n = "searchsorted xs v"
  have n: "?n < length xs" using assms by simp
  have "\<not> xs ! ?n < v"
    using n unfolding searchsorted_def by (rule nth_length_takeWhile)
  then have "v \<le> xs ! ?n" by simp
  also have "xs ! ?n \<le> xs ! j"
    using assms by (simp add: sorted_nth_mono)
  finally show ?thesis .
qed

lemma resampled_index_eq:
  assumes "timeframe = ''weekly'' \<or> timeframe = ''monthly''"
  shows "resampled_index timeframe resampled_dt orig_date =
     (case get_loc resampled_dt (bucket_boundary timeframe orig_date) of
        Some idx \<Rightarrow> Some idx
      | None \<Rightarrow> if searchsorted resampled_dt (bucket_boundary timeframe orig_date) > 0
                then Some (searchsorted resampled_dt (bucket_boundary timeframe orig_date) - 1)
                else None)"
  using assms
  by (auto simp: resampled_index_def bucket_boundary_def week_end_of_def Let_def split: option.splits)

lemma resampled_index_bound:
  "resampled_index timeframe resampled_dt orig_date = Some idx \<Longrightarrow> idx < length resampled_dt"
proof -
  assume a: "resampled_index timeframe resampled_dt orig_date = Some idx"
  then have tf: "timeframe = ''weekly'' \<or> timeframe = ''monthly''"
    by (auto simp: resampled_index_def split: if_splits)
  let ?k = "bucket_boundary timeframe orig_date"
  show ?thesis
  proof (cases "get_loc resampled_dt ?k")
    case None
    with a have "0 < searchsorted resampled_dt ?k" "idx = searchsorted resampled_dt ?k - 1"
      unfolding resampled_index_eq[OF tf] by (auto split: if_splits)
    with searchsorted_le[of resampled_dt ?k] show ?thesis by simp
  next
    case (Some i)
    with a have "idx = i" unfolding resampled_index_eq[OF tf] by simp
    with get_loc_Some[OF Some] show ?thesis by simp
  qed
qed

lemma located_at_get_loc:
  assumes "get_loc rd (bucket_boundary timeframe t) = Some i"
  shows "located_at timeframe rd t i"
  using get_loc_Some[OF assms] by (simp add: located_at_def list_all_iff)

lemma located_at_unique:
  assumes "sorted_wrt (<) rd" "located_at timeframe rd t k" "located_at timeframe rd t k'"
  shows "k = k'"
proof -
  have d: "distinct rd" using assms(1) by (simp add: strict_sorted_iff)
  from assms(2,3) have k: "k < length rd" "k' < length rd"
    and a: "rd ! k \<le> rd ! k'" and b: "rd ! k' \<le> rd ! k"
    by (auto simp: located_at_def list_all_iff)
  then have "rd ! k = rd ! k'" by simp
  then show ?thesis using d k by (simp add: nth_eq_iff_index_eq)
qed

lemma located_at_fallback:
  assumes srt: "sorted_wrt (<) rd" and miss: "bucket_boundary timeframe t \<notin> set rd"
  shows "(0 < searchsorted rd (bucket_boundary timeframe t)
            \<longrightarrow> located_at timeframe rd t (searchsorted rd (bucket_boundary timeframe t) - 1))
       \<and> (searchsorted rd (bucket_boundary timeframe t) = 0 \<longrightarrow> (\<forall>k. \<not> located_at timeframe rd t k))"
proof -
  let ?k = "bucket_boundary timeframe t"
  let ?n = "searchsorted rd ?k"
  have s: "sorted rd" using srt by (simp add: strict_sorted_iff)
  have above: "\<And>j. j < length rd \<Longrightarrow> rd ! j \<le> ?k \<Longrightarrow> j < ?n"
  proof (rule ccontr)
    fix j assume j: "j < length rd" "rd ! j \<le> ?k" "\<not> j < ?n"
    then have "?k \<le> rd ! j" using searchsorted_above[OF s _ j(1)] by simp
    with j(2) have "rd ! j = ?k" by simp
    with j(1) miss show False by (metis nth_mem)
  qed
  have p1: "0 < ?n \<longrightarrow> located_at timeframe rd t (?n - 1)"
  proof
    assume pos: "0 < ?n"
    then have lt: "?n - 1 < ?n" by simp
    have b1: "?n - 1 < length rd" using pos searchsorted_le[of rd ?k] by simp
    have b2: "rd ! (?n - 1) \<le> ?k" using searchsorted_below[OF lt] by simp
    have b3: "list_all (\<lambda>b. b \<le> ?k \<longrightarrow> b \<le> rd ! (?n - 1)) rd"
      unfolding list_all_iff
    proof (intro ballI impI)
      fix b assume b: "b \<in> set rd" "b \<le> ?k"
      then obtain j where j: "j < length rd" "rd ! j = b" by (auto simp: in_set_conv_nth)
      have "j < ?n" using above[OF j(1)] b(2) j(2) by simp
      then have "j \<le> ?n - 1" by simp
      then show "b \<le> rd ! (?n - 1)" using sorted_nth_mono[OF s _ b1] j by auto
    qed
    from b1 b2 b3 show "located_at timeframe rd t (?n - 1)" by (simp add: located_at_def)
  qed
  have p2: "?n = 0 \<longrightarrow> (\<forall>k. \<not> located_at timeframe rd t k)"
  proof (intro impI allI notI)
    fix k assume z: "?n = 0" and l: "located_at timeframe rd t k"
    then have "k < length rd" "rd ! k \<le> ?k" by (simp_all add: located_at_def)
    from above[OF this] z show False by simp
  qed
  from p1 p2 show ?thesis by blast
qed

lemma resampled_index_located:
  assumes tf: "timeframe = ''weekly'' \<or> timeframe = ''monthly''" and srt: "sorted_wrt (<) rd"
  shows "resampled_index timeframe rd t = Some k \<longleftrightarrow> located_at timeframe rd t k"
proof (cases "get_loc rd (bucket_boundary timeframe t)")
  case (Some i)
  have r: "resampled_index timeframe rd t = Some i"
    unfolding resampled_index_eq[OF tf] Some by simp
  have li: "located_at timeframe rd t i" by (rule located_at_get_loc[OF Some])
  show ?thesis
  proof
    assume "resampled_index timeframe rd t = Some k"
    with r li show "located_at timeframe rd t k" by simp
  next
    assume "located_at timeframe rd t k"
    then have "k = i" using li by (rule located_at_unique[OF srt])
    with r show "resampled_index timeframe rd t = Some k" by simp
  qed
next
  case None
  then have miss: "bucket_boundary timeframe t \<notin> set rd" by (simp add: get_loc_None_iff)
  let ?n = "searchsorted rd (bucket_boundary timeframe t)"
  have r: "resampled_index timeframe rd t = (if ?n > 0 then Some (?n - 1) else None)"
    unfolding resampled_index_eq[OF tf] None by simp
  note fb = located_at_fallback[OF srt miss]
  show ?thesis
  proof (cases "0 < ?n")
    case True
    then have l: "located_at timeframe rd t (?n - 1)" using fb by blast
    have r': "resampled_index timeframe rd t = Some (?n - 1)" unfolding r using True by simp
    show ?thesis
    proof
      assume "resampled_index timeframe rd t = Some k"
      with r' l show "located_at timeframe rd t k" by simp
    next
      assume "located_at timeframe rd t k"
      then have "k = ?n - 1" using l by (rule located_at_unique[OF srt])
      with r' show "resampled_index timeframe rd t = Some k" by simp
    qed
  next
    case False
    then have z: "?n = 0" by simp
    then have "\<not> located_at timeframe rd t k" using fb by blast
    moreover have "resampled_index timeframe rd t = None" unfolding r using False by simp
    ultimately show ?thesis by simp
  qed
qed

lemma located_at_member:
  assumes srt: "sorted_wrt (<) rd" and mem: "bucket_boundary timeframe t \<in> set rd"
  shows "located_at timeframe rd t k \<longleftrightarrow> k < length rd \<and> rd ! k = bucket_boundary timeframe t"
proof
  assume l: "located_at timeframe rd t k"
  then have k: "k < length rd" "rd ! k \<le> bucket_boundary timeframe t"
    and a: "\<forall>b \<in> set rd. b \<le> bucket_boundary timeframe t \<longrightarrow> b \<le> rd ! k"
    by (simp_all add: located_at_def list_all_iff)
  from a mem have "bucket_boundary timeframe t \<le> rd ! k" by simp
  with k show "k < length rd \<and> rd ! k = bucket_boundary timeframe t" by simp
next
  assume "k < length rd \<and> rd ! k = bucket_boundary timeframe t"
  then show "located_at timeframe rd t k" by (simp add: located_at_def list_all_iff)
qed

section \<open>Facts about the signal remapping loop\<close>

lemma map_entry_distinct:
  "distinct (map fst M) \<Longrightarrow>
     AList.map_entry k f M = map (\<lambda>(n, out). (n, if n = k then f out else out)) M"
proof (induction M)
  case Nil
  then show ?case by simp
next
  case (Cons p M)
  obtain n out where p: "p = (n, out)" by (cases p)
  show ?case
  proof (cases "n = k")
    case True
    with Cons.prems p have "k \<notin> fst ` set M" by simp
    then have "map (\<lambda>(n, out). (n, if n = k then f out else out)) M = M"
      by (induction M) auto
    with True p show ?thesis by simp
  next
    case False
    with Cons p show ?thesis by simp
  qed
qed

lemma write_signals_distinct:
  assumes "distinct (map fst ys)" "distinct (map fst M)"
  shows "write_signals ys i idx M =
     map (\<lambda>(n, out). (n, case map_of ys n of None \<Rightarrow> out
                                          | Some vals \<Rightarrow> write_one vals i idx out)) M"
  using assms
proof (induction ys arbitrary: M)
  case Nil
  then show ?case by (simp add: write_signals_def)
next
  case (Cons y ys)
  obtain n0 v0 where y: "y = (n0, v0)" by (cases y)
  let ?M' = "map (\<lambda>(n, out). (n, if n = n0 then write_one v0 i idx out else out)) M"
  have st: "(if i < length v0 \<and> v0 ! i \<noteq> 0
             then AList.map_entry n0 (\<lambda>out. out[idx := v0 ! i]) M else M) = ?M'"
  proof (cases "i < length v0 \<and> v0 ! i \<noteq> 0")
    case True
    then have w: "\<And>out. write_one v0 i idx out = out[idx := v0 ! i]"
      by (simp add: write_one_def)
    have fe: "(\<lambda>out. out[idx := v0 ! i]) = write_one v0 i idx"
      by (rule ext) (simp add: w)
    show ?thesis
      unfolding fe using True map_entry_distinct[OF Cons.prems(2), of n0 "write_one v0 i idx"]
      by simp
  next
    case False
    then have "?M' = M" by (induction M) (auto simp: write_one_def)
    moreover have "(if i < length v0 \<and> v0 ! i \<noteq> 0
             then AList.map_entry n0 (\<lambda>out. out[idx := v0 ! i]) M else M) = M"
      using False by (rule if_not_P)
    ultimately show ?thesis by (simp only:)
  qed
  have keys: "map fst ?M' = map fst M" by (induction M) auto
  have d': "distinct (map fst ?M')" unfolding keys by (rule Cons.prems(2))
  have dy: "distinct (map fst ys)" and n0: "n0 \<notin> fst ` set ys" using Cons.prems(1) y by simp_all
  have "write_signals (y # ys) i idx M = write_signals ys i idx ?M'"
    using st by (simp add: write_signals_def y)
  also have "\<dots> = map (\<lambda>(n, out). (n, case map_of ys n of None \<Rightarrow> out
                                          | Some vals \<Rightarrow> write_one vals i idx out)) ?M'"
    by (rule Cons.IH[OF dy d'])
  also have "\<dots> = map (\<lambda>(n, out). (n, case map_of (y # ys) n of None \<Rightarrow> out
                                          | Some vals \<Rightarrow> write_one vals i idx out)) M"
  proof -
    have m: "map_of ys n0 = None" using n0 by (simp add: map_of_eq_None_iff)
    show ?thesis
      by (induction M) (auto simp: y m)
  qed
  finally show ?case .
qed

lemma write_signals_aligned:
  assumes "distinct (map fst sigs)"
  shows "write_signals sigs i idx (map (\<lambda>(n, vals). (n, G vals)) sigs) =
         map (\<lambda>(n, vals). (n, write_one vals i idx (G vals))) sigs"
proof -
  have k: "map fst (map (\<lambda>(n, vals). (n, G vals)) sigs) = map fst sigs" by (induction sigs) auto
  have "write_signals sigs i idx (map (\<lambda>(n, vals). (n, G vals)) sigs) =
     map (\<lambda>(n, out). (n, case map_of sigs n of None \<Rightarrow> out
                                          | Some vals \<Rightarrow> write_one vals i idx out))
        (map (\<lambda>(n, vals). (n, G vals)) sigs)"
  proof (rule write_signals_distinct[OF assms])
    show "distinct (map fst (map (\<lambda>(n, vals). (n, G vals)) sigs))"
      unfolding k by (rule assms)
  qed
  also have "\<dots> = map (\<lambda>(n, vals). (n, write_one vals i idx (G vals))) sigs"
  proof (rule nth_equalityI)
    show "length (map (\<lambda>(n, out). (n, case map_of sigs n of None \<Rightarrow> out
                                          | Some vals \<Rightarrow> write_one vals i idx out))
        (map (\<lambda>(n, vals). (n, G vals)) sigs)) = length (map (\<lambda>(n, vals). (n, write_one vals i idx (G vals))) sigs)"
      by simp
  next
    fix j assume "j < length (map (\<lambda>(n, out). (n, case map_of sigs n of None \<Rightarrow> out
                                          | Some vals \<Rightarrow> write_one vals i idx out))
        (map (\<lambda>(n, vals). (n, G vals)) sigs))"
    then have j: "j < length sigs" by simp
    obtain n vals where nv: "sigs ! j = (n, vals)" by (cases "sigs ! j")
    have "(n, vals) \<in> set sigs" using j nv by (metis nth_mem)
    then have "map_of sigs n = Some vals" using assms by simp
    then show "map (\<lambda>(n, out). (n, case map_of sigs n of None \<Rightarrow> out
                                          | Some vals \<Rightarrow> write_one vals i idx out))
        (map (\<lambda>(n, vals). (n, G vals)) sigs) ! j = map (\<lambda>(n, vals). (n, write_one vals i idx (G vals))) sigs ! j"
      using j nv by simp
  qed
  finally show ?thesis .
qed

lemma outer_fold_aligned:
  assumes "distinct (map fst sigs)"
  shows "fold (\<lambda>(i, orig_date) mapped.
                   case resampled_index timeframe resampled_dates orig_date of
                     None \<Rightarrow> mapped
                   | Some resampled_idx \<Rightarrow> write_signals sigs i resampled_idx mapped)
           ps (map (\<lambda>(n, vals). (n, G vals)) sigs)
       = map (\<lambda>(n, vals). (n, fold (remap_step timeframe resampled_dates vals) ps (G vals))) sigs"
proof (induction ps arbitrary: G)
  case Nil
  show ?case by simp
next
  case (Cons p ps)
  obtain i t where p: "p = (i, t)" by (cases p)
  let ?G' = "\<lambda>vals. remap_step timeframe resampled_dates vals p (G vals)"
  have "(case resampled_index timeframe resampled_dates t of
           None \<Rightarrow> map (\<lambda>(n, vals). (n, G vals)) sigs
         | Some resampled_idx \<Rightarrow> write_signals sigs i resampled_idx (map (\<lambda>(n, vals). (n, G vals)) sigs))
        = map (\<lambda>(n, vals). (n, ?G' vals)) sigs"
    by (cases "resampled_index timeframe resampled_dates t")
       (simp_all add: remap_step_def p write_signals_aligned[OF assms])
  then show ?case
    using Cons.IH[of ?G'] by (simp add: p)
qed

lemma map_signals_per_series:
  assumes "timeframe \<noteq> ''daily''" "distinct (map fst original_signals)"
  shows "map_signals_to_timeframe original_signals original_dates resampled_dates timeframe =
         map (\<lambda>(n, vals). (n, remap_series timeframe resampled_dates original_dates vals))
           original_signals"
  using assms(1) outer_fold_aligned[OF assms(2), of timeframe resampled_dates
      "enumerate 0 original_dates" "\<lambda>vals. replicate (length resampled_dates) 0"]
  by (simp add: map_signals_to_timeframe_def remap_series_def)

lemma write_one_skip:
  "\<not> (i < length vals \<and> vals ! i \<noteq> 0) \<Longrightarrow> write_one vals i idx out = out"
  unfolding write_one_def by (rule if_not_P)

lemma write_one_hit:
  "i < length vals \<and> vals ! i \<noteq> 0 \<Longrightarrow> write_one vals i idx out = out[idx := vals ! i]"
  unfolding write_one_def by (rule if_P)

lemma fold_remap_step_nth:
  assumes "k < length out0"
  shows "length (fold (remap_step timeframe rd vals) ps out0) = length out0
       \<and> fold (remap_step timeframe rd vals) ps out0 ! k =
           (if filter (writes_to timeframe rd vals k) ps = [] then out0 ! k
            else vals ! fst (last (filter (writes_to timeframe rd vals k) ps)))"
proof (induction ps rule: rev_induct)
  case Nil
  show ?case by simp
next
  case (snoc p ps)
  let ?out = "fold (remap_step timeframe rd vals) ps out0"
  let ?P = "writes_to timeframe rd vals k"
  have len: "length ?out = length out0" using snoc by simp
  have ih: "?out ! k = (if filter ?P ps = [] then out0 ! k else vals ! fst (last (filter ?P ps)))"
    using snoc by simp
  have f: "fold (remap_step timeframe rd vals) (ps @ [p]) out0 = remap_step timeframe rd vals p ?out"
    by simp
  have l: "length (remap_step timeframe rd vals p ?out) = length out0"
    using len by (simp add: remap_step_def write_one_def split: option.splits)
  show ?case
  proof (cases "?P p")
    case True
    then have c: "fst p < length vals \<and> vals ! fst p \<noteq> 0"
      and r: "resampled_index timeframe rd (snd p) = Some k"
      by (simp_all add: writes_to_def)
    have "remap_step timeframe rd vals p ?out = ?out[k := vals ! fst p]"
      by (simp add: remap_step_def r write_one_hit[OF c])
    then have v: "remap_step timeframe rd vals p ?out ! k = vals ! fst p"
      using assms len by simp
    have fl: "filter ?P (ps @ [p]) = filter ?P ps @ [p]" using True by simp
    show ?thesis unfolding f fl using l v by simp
  next
    case False
    have v: "remap_step timeframe rd vals p ?out ! k = ?out ! k"
    proof (cases "resampled_index timeframe rd (snd p)")
      case None
      then show ?thesis by (simp add: remap_step_def)
    next
      case (Some idx)
      show ?thesis
      proof (cases "fst p < length vals \<and> vals ! fst p \<noteq> 0")
        case c: True
        with False Some have "idx \<noteq> k" by (auto simp: writes_to_def)
        then show ?thesis by (simp add: remap_step_def Some write_one_hit[OF c])
      next
        case c: False
        show ?thesis by (simp add: remap_step_def Some write_one_skip[OF c])
      qed
    qed
    have fl: "filter ?P (ps @ [p]) = filter ?P ps" using False by simp
    show ?thesis unfolding f fl v using l ih by simp
  qed
qed

lemma remap_series_nth:
  assumes "k < length resampled_dates"
  shows "length (remap_series timeframe resampled_dates original_dates vals) = length resampled_dates
       \<and> remap_series timeframe resampled_dates original_dates vals ! k =
           (if writers timeframe resampled_dates original_dates vals k = [] then 0
            else vals ! fst (last (writers timeframe resampled_dates original_dates vals k)))"
  using fold_remap_step_nth[of k "replicate (length resampled_dates) 0" timeframe resampled_dates
      vals "enumerate 0 original_dates"] assms
  by (simp add: remap_series_def writers_def)

section \<open>Facts about the resampling pipeline\<close>

lemma resample_unfold:
  assumes "timeframe = ''weekly'' \<or> timeframe = ''monthly''"
    and "list_all valid_date (dates d)" and "columns_aligned d"
  shows "resample_data_to_timeframe d timeframe =
     Inr \<lparr>symbol = symbol d,
          dates = map fst (resampled_frame timeframe d),
          data = Some \<lparr>open = map row_open (resampled_frame timeframe d),
                       high = map row_high (resampled_frame timeframe d),
                       low = map row_low (resampled_frame timeframe d),
                       close = map row_close (resampled_frame timeframe d),
                       volume = map row_volume (resampled_frame timeframe d)\<rparr>,
          signals = map_signals_to_timeframe (signals d) (dates d)
                      (map fst (resampled_frame timeframe d)) timeframe,
          indicators =
            map (\<lambda>(indicator_name, indicator_values).
                   if indicator_name = ''Final_Composite_Value'' \<and> length indicator_values > 0
                   then (indicator_name,
                         resample_fcv timeframe (dates d) (map fst (resampled_frame timeframe d))
                           indicator_values)
                   else (indicator_name, indicator_values))
              (indicators d),
          trendlines = Some (case trendlines d of None \<Rightarrow> [] | Some ts \<Rightarrow> ts),
          last_updated = last_updated d,
          error = None\<rparr>"
proof -
  have nd: "timeframe \<noteq> ''daily''" using assms(1) by auto
  have sd: "(case data d of None \<Rightarrow> \<lparr>open = [], high = [], low = [], close = [], volume = []\<rparr>
             | Some s \<Rightarrow> s) = stock_data_of d"
    by (simp add: stock_data_of_def)
  have td: "to_datetime (dates d) = Inr (dates d)" using assms(2) by (simp add: to_datetime_def)
  have df: "DataFrame (dates d) (stock_data_of d) = Inr (frame_of d)"
    using assms(3) by (simp add: DataFrame_def columns_aligned_def frame_of_def)
  have c: "\<not> (timeframe \<noteq> ''weekly'' \<and> timeframe \<noteq> ''monthly'')"
    using assms(1) by blast
  show ?thesis
    unfolding resample_data_to_timeframe_def sd Let_def td df resampled_frame_def
    by (simp only: nd c if_False sum.case df)
qed

lemma enumerate_as_map: "enumerate 0 xs = map (\<lambda>j. (j, xs ! j)) [0 ..< length xs]"
  by (rule nth_equalityI) (simp_all add: nth_enumerate_eq)

lemma resampled_frame_empty: "dates d = [] \<Longrightarrow> resampled_frame timeframe d = []"
  by (simp add: resampled_frame_def frame_of_def resample_agg_def dropna_def map_filter_simps)

lemma indicator_lookup:
  assumes "distinct (map fst inds)" "(n, vals) \<in> set inds"
  shows "map_of (map (\<lambda>(indicator_name, indicator_values).
                   if indicator_name = c \<and> length indicator_values > 0
                   then (indicator_name, f indicator_values)
                   else (indicator_name, indicator_values)) inds) n
         = Some (if n = c \<and> length vals > 0 then f vals else vals)"
proof -
  let ?g = "\<lambda>(indicator_name, indicator_values).
                   if indicator_name = c \<and> length indicator_values > 0
                   then (indicator_name, f indicator_values)
                   else (indicator_name, indicator_values)"
  have keys: "map fst (map ?g inds) = map fst inds" by (induction inds) auto
  have d: "distinct (map fst (map ?g inds))" unfolding keys by (rule assms(1))
  have "?g (n, vals) \<in> ?g ` set inds" using assms(2) by (rule imageI)
  then have "?g (n, vals) \<in> set (map ?g inds)" by (simp only: set_map)
  moreover have "?g (n, vals) = (n, if n = c \<and> length vals > 0 then f vals else vals)"
  proof (cases "n = c \<and> length vals > 0")
    case True
    show ?thesis by (simp only: prod.case if_P[OF True])
  next
    case False
    show ?thesis by (simp only: prod.case if_not_P[OF False])
  qed
  ultimately have "(n, if n = c \<and> length vals > 0 then f vals else vals) \<in> set (map ?g inds)"
    by (simp only:)
  then show ?thesis using d by simp
qed

lemma length_resample_fcv:
  "length (resample_fcv timeframe original_dates resampled_dates indicator_values)
     = length resampled_dates"
  by (simp add: resample_fcv_def)

lemma length_fold_remap_step:
  "length (fold (remap_step timeframe rd vals) ps out0) = length out0"
proof (induction ps arbitrary: out0)
  case Nil
  show ?case by simp
next
  case (Cons p ps)
  have "length (remap_step timeframe rd vals p out0) = length out0"
    by (simp add: remap_step_def write_one_def split: option.splits)
  with Cons show ?case by simp
qed

lemma length_remap_series:
  "length (remap_series timeframe resampled_dates original_dates vals) = length resampled_dates"
  by (simp add: remap_series_def length_fold_remap_step)

lemma other_indicators_kept:
  "filter (\<lambda>s. fst s \<noteq> c)
     (map (\<lambda>(indicator_name, indicator_values).
             if indicator_name = c \<and> length indicator_values > 0
             then (indicator_name, f indicator_values)
             else (indicator_name, indicator_values)) inds)
   = filter (\<lambda>s. fst s \<noteq> c) inds"
  by (induction inds) (auto split: if_splits)

section \<open>Facts about resampling and aggregation\<close>

lemma filter_strict_sorted:
  assumes "sorted_wrt (<) xs" "K \<subseteq> set xs"
  shows "filter (\<lambda>x. x \<in> K) xs = sorted_list_of_set K"
proof -
  have f: "finite K" using assms(2) by (rule finite_subset) simp
  have a: "sorted_wrt (<) (filter (\<lambda>x. x \<in> K) xs)" using assms(1) by (rule sorted_wrt_filter)
  have b: "set (filter (\<lambda>x. x \<in> K) xs) = K" using assms(2) by auto
  have c: "sorted_wrt (<) (sorted_list_of_set K)" "set (sorted_list_of_set K) = K"
    using f by simp_all
  show ?thesis using a b c by (metis strict_sorted_equal)
qed

lemma filter_as_map_nth:
  "filter P xs = map (\<lambda>i. xs ! i) (filter (\<lambda>i. P (xs ! i)) [0 ..< length xs])"
proof -
  have "xs = map (\<lambda>i. xs ! i) [0 ..< length xs]" by (simp add: map_nth)
  then have "filter P xs = filter P (map (\<lambda>i. xs ! i) [0 ..< length xs])" by simp
  also have "\<dots> = map (\<lambda>i. xs ! i) (filter (P \<circ> (\<lambda>i. xs ! i)) [0 ..< length xs])"
    by (rule filter_map)
  finally show ?thesis by (simp add: comp_def)
qed

lemma keep_row_simps:
  "keep_row (b, Some o', Some h, Some l, Some c, v) = Some (b, o', h, l, c, v)"
  "keep_row (b, None, x2, x3, x4, v) = None"
  "keep_row (b, x1, None, x3, x4, v) = None"
  "keep_row (b, x1, x2, None, x4, v) = None"
  "keep_row (b, x1, x2, x3, None, v) = None"
  by (simp_all add: keep_row_def split: option.splits)

lemma dropna_Cons:
  "dropna (x # xs) = (case keep_row x of None \<Rightarrow> dropna xs | Some y \<Rightarrow> y # dropna xs)"
  unfolding dropna_def by (simp add: map_filter_simps)

lemma dropna_Nil: "dropna [] = []"
  by (simp add: dropna_def map_filter_simps)

lemma dropna_map:
  "dropna (map (\<lambda>b. (b, F1 b, F2 b, F3 b, F4 b, V b)) bins) =
     map (\<lambda>b. (b, the (F1 b), the (F2 b), the (F3 b), the (F4 b), V b))
       (filter (\<lambda>b. F1 b \<noteq> None \<and> F2 b \<noteq> None \<and> F3 b \<noteq> None \<and> F4 b \<noteq> None) bins)"
proof (induction bins)
  case Nil
  show ?case by (simp add: dropna_Nil)
next
  case (Cons b bins)
  show ?case
  proof (cases "F1 b \<noteq> None \<and> F2 b \<noteq> None \<and> F3 b \<noteq> None \<and> F4 b \<noteq> None")
    case True
    then obtain a1 a2 a3 a4 where "F1 b = Some a1" "F2 b = Some a2" "F3 b = Some a3" "F4 b = Some a4"
      by auto
    with Cons True show ?thesis by (simp add: dropna_Cons keep_row_simps)
  next
    case False
    then have "keep_row (b, F1 b, F2 b, F3 b, F4 b, V b) = None"
      using keep_row_simps(2-5) by metis
    with Cons False show ?thesis by (simp add: dropna_Cons)
  qed
qed

lemma agg_first_map: "I \<noteq> [] \<Longrightarrow> agg_first (map h I) = Some (h (hd I))"
  by (cases I) (simp_all add: agg_first_def)

lemma agg_last_map: "I \<noteq> [] \<Longrightarrow> agg_last (map h I) = Some (h (last I))"
  by (simp add: agg_last_def last_map)

lemma agg_max_map: "I \<noteq> [] \<Longrightarrow> agg_max (map h I) = Some (Max (h ` set I))"
proof (cases I)
  case Nil
  assume "I \<noteq> []" with Nil show ?thesis by simp
next
  case (Cons i I')
  have "Max (set (h i # map h I')) = fold max (map h I') (h i)" by (rule Max.set_eq_fold)
  then show ?thesis by (simp add: agg_max_def Cons)
qed

lemma agg_min_map: "I \<noteq> [] \<Longrightarrow> agg_min (map h I) = Some (Min (h ` set I))"
proof (cases I)
  case Nil
  assume "I \<noteq> []" with Nil show ?thesis by simp
next
  case (Cons i I')
  have "Min (set (h i # map h I')) = fold min (map h I') (h i)" by (rule Min.set_eq_fold)
  then show ?thesis by (simp add: agg_min_def Cons)
qed

lemma agg_first_None_iff: "agg_first xs \<noteq> None \<longleftrightarrow> xs \<noteq> []"
  by (cases xs) (simp_all add: agg_first_def)

lemma agg_last_None_iff: "agg_last xs \<noteq> None \<longleftrightarrow> xs \<noteq> []"
  by (simp add: agg_last_def)

lemma agg_max_None_iff: "agg_max xs \<noteq> None \<longleftrightarrow> xs \<noteq> []"
  by (cases xs) (simp_all add: agg_max_def)

lemma agg_min_None_iff: "agg_min xs \<noteq> None \<longleftrightarrow> xs \<noteq> []"
  by (cases xs) (simp_all add: agg_min_def)

lemma frame_of_nth:
  assumes "columns_aligned d"
  shows "length (frame_of d) = length (dates d)"
    and "map fst (frame_of d) = dates d"
    and "i < length (dates d) \<Longrightarrow>
          fst (frame_of d ! i) = dates d ! i
        \<and> row_open (frame_of d ! i) = open (stock_data_of d) ! i
        \<and> row_high (frame_of d ! i) = high (stock_data_of d) ! i
        \<and> row_low (frame_of d ! i) = low (stock_data_of d) ! i
        \<and> row_close (frame_of d ! i) = close (stock_data_of d) ! i
        \<and> row_volume (frame_of d ! i) = volume (stock_data_of d) ! i"
  using assms
  by (simp_all add: frame_of_def columns_aligned_def row_open_def row_high_def row_low_def
      row_close_def row_volume_def)

lemma resample_agg_sorted:
  assumes "sorted (map fst s)" "s \<noteq> []"
  shows "dropna (resample_agg rule s) =
     map (agg_row rule s)
       (filter (\<lambda>b. bin_group rule s b \<noteq> [])
          (bin_labels rule (rollforward rule (fst (hd s))) (rollforward rule (fst (last s)))))"
proof -
  have sk: "sort_key fst s = s" using assms(1) by (rule sort_key_id_if_sorted)
  let ?bins = "bin_labels rule (rollforward rule (fst (hd s))) (rollforward rule (fst (last s)))"
  have ra: "resample_agg rule s =
     map (\<lambda>b. (b, agg_first (map row_open (bin_group rule s b)),
                  agg_max (map row_high (bin_group rule s b)),
                  agg_min (map row_low (bin_group rule s b)),
                  agg_last (map row_close (bin_group rule s b)),
                  agg_sum (map row_volume (bin_group rule s b)))) ?bins"
    unfolding resample_agg_def sk Let_def bin_group_def using assms(2) by simp
  have c: "(agg_first (map row_open (bin_group rule s b)) \<noteq> None
          \<and> agg_max (map row_high (bin_group rule s b)) \<noteq> None
          \<and> agg_min (map row_low (bin_group rule s b)) \<noteq> None
          \<and> agg_last (map row_close (bin_group rule s b)) \<noteq> None)
        \<longleftrightarrow> bin_group rule s b \<noteq> []" for b
    by (simp only: agg_first_None_iff agg_max_None_iff agg_min_None_iff agg_last_None_iff
        map_is_Nil_conv simp_thms)
  show ?thesis
    unfolding ra dropna_map c agg_row_def[abs_def] ..
qed

lemma bin_group_nonempty:
  "bin_group rule s b \<noteq> [] \<longleftrightarrow> b \<in> rollforward rule ` set (map fst s)"
  by (auto simp: bin_group_def filter_empty_conv image_iff)

lemma rollforward_bucket:
  assumes "timeframe = ''weekly'' \<or> timeframe = ''monthly''"
  shows "rollforward (if timeframe = ''weekly'' then ''W-FRI'' else ''M'') = bucket_boundary timeframe"
  using assms by (auto simp: rollforward_def bucket_boundary_def fun_eq_iff)

lemma bin_labels_cover:
  assumes tf: "timeframe = ''weekly'' \<or> timeframe = ''monthly''"
    and vd: "list_all valid_date ds" and srt: "sorted ds" and ne: "ds \<noteq> []"
  shows "sorted_wrt (<) (bin_labels (if timeframe = ''weekly'' then ''W-FRI'' else ''M'')
            (bucket_boundary timeframe (hd ds)) (bucket_boundary timeframe (last ds)))
       \<and> bucket_boundary timeframe ` set ds
           \<subseteq> set (bin_labels (if timeframe = ''weekly'' then ''W-FRI'' else ''M'')
                    (bucket_boundary timeframe (hd ds)) (bucket_boundary timeframe (last ds)))"
proof (cases "timeframe = ''weekly''")
  case True
  have b: "bucket_boundary timeframe = week_end_of"
    using True by (simp add: bucket_boundary_def fun_eq_iff)
  show ?thesis unfolding b using bin_labels_weekly[OF vd srt ne] True by simp
next
  case False
  have b: "bucket_boundary timeframe = month_end"
    using False by (simp add: bucket_boundary_def fun_eq_iff)
  show ?thesis unfolding b using bin_labels_monthly[OF vd srt ne] False by simp
qed

lemma resampled_frame_eq:
  assumes tf: "timeframe = ''weekly'' \<or> timeframe = ''monthly''"
    and vd: "list_all valid_date (dates d)" and al: "columns_aligned d"
    and srt: "sorted_wrt (<) (dates d)"
  shows "resampled_frame timeframe d =
     map (agg_row (if timeframe = ''weekly'' then ''W-FRI'' else ''M'') (frame_of d))
       (sorted_list_of_set (bucket_boundary timeframe ` set (dates d)))"
proof (cases "dates d = []")
  case True
  then show ?thesis by (simp add: resampled_frame_empty)
next
  case False
  let ?rule = "if timeframe = ''weekly'' then ''W-FRI'' else ''M''"
  let ?s = "frame_of d"
  note fr = frame_of_nth[OF al]
  have ne: "?s \<noteq> []" using fr(1) False by auto
  have s: "sorted (dates d)" using srt by (simp add: strict_sorted_iff)
  have sm: "sorted (map fst ?s)" unfolding fr(2) by (rule s)
  have h: "fst (hd ?s) = hd (dates d)" using ne fr(2) by (metis hd_map)
  have l: "fst (last ?s) = last (dates d)" using ne fr(2) by (metis last_map)
  have rb: "rollforward ?rule = bucket_boundary timeframe" by (rule rollforward_bucket[OF tf])
  note bc = bin_labels_cover[OF tf vd s False]
  have g: "(\<lambda>b. bin_group ?rule ?s b \<noteq> []) = (\<lambda>b. b \<in> bucket_boundary timeframe ` set (dates d))"
    unfolding bin_group_nonempty fr(2) rb ..
  have "resampled_frame timeframe d = dropna (resample_agg ?rule ?s)"
    by (simp add: resampled_frame_def)
  also have "\<dots> = map (agg_row ?rule ?s)
       (filter (\<lambda>b. bin_group ?rule ?s b \<noteq> [])
          (bin_labels ?rule (rollforward ?rule (fst (hd ?s))) (rollforward ?rule (fst (last ?s)))))"
    by (rule resample_agg_sorted[OF sm ne])
  also have "\<dots> = map (agg_row ?rule ?s) (sorted_list_of_set (bucket_boundary timeframe ` set (dates d)))"
    unfolding g rb h l using filter_strict_sorted[OF conjunct1[OF bc] conjunct2[OF bc]] by simp
  finally show ?thesis .
qed


lemma bucket_records_nonempty:
  "bucket_records timeframe ds b \<noteq> [] \<longleftrightarrow> b \<in> bucket_boundary timeframe ` set ds"
proof
  assume "bucket_records timeframe ds b \<noteq> []"
  then obtain i where "i < length ds" "bucket_boundary timeframe (ds ! i) = b"
    by (auto simp: bucket_records_def filter_empty_conv)
  then show "b \<in> bucket_boundary timeframe ` set ds" by (metis imageI nth_mem)
next
  assume "b \<in> bucket_boundary timeframe ` set ds"
  then obtain t where "t \<in> set ds" "bucket_boundary timeframe t = b" by blast
  then obtain i where "i < length ds" "bucket_boundary timeframe (ds ! i) = b"
    by (auto simp: in_set_conv_nth)
  then show "bucket_records timeframe ds b \<noteq> []"
    by (auto simp: bucket_records_def filter_empty_conv)
qed

lemma bucket_records_bound: "i \<in> set (bucket_records timeframe ds b) \<Longrightarrow> i < length ds"
  by (simp add: bucket_records_def)

lemma bin_group_records:
  assumes tf: "timeframe = ''weekly'' \<or> timeframe = ''monthly''" and al: "columns_aligned d"
  shows "bin_group (if timeframe = ''weekly'' then ''W-FRI'' else ''M'') (frame_of d) b
       = map (\<lambda>i. frame_of d ! i) (bucket_records timeframe (dates d) b)"
proof -
  let ?rule = "if timeframe = ''weekly'' then ''W-FRI'' else ''M''"
  note fr = frame_of_nth[OF al]
  have rb: "rollforward ?rule = bucket_boundary timeframe" by (rule rollforward_bucket[OF tf])
  have "filter (\<lambda>i. bucket_boundary timeframe (fst (frame_of d ! i)) = b) [0 ..< length (dates d)]
      = filter (\<lambda>i. bucket_boundary timeframe (dates d ! i) = b) [0 ..< length (dates d)]"
    by (rule filter_cong) (simp_all add: fr(3))
  then show ?thesis
    unfolding bin_group_def bucket_records_def rb
    using filter_as_map_nth[of "\<lambda>r. bucket_boundary timeframe (fst r) = b" "frame_of d"]
    by (simp add: fr(1))
qed

lemma agg_row_values:
  assumes tf: "timeframe = ''weekly'' \<or> timeframe = ''monthly''" and al: "columns_aligned d"
    and ne: "bucket_records timeframe (dates d) b \<noteq> []"
  shows "agg_row (if timeframe = ''weekly'' then ''W-FRI'' else ''M'') (frame_of d) b =
     (b, open (stock_data_of d) ! hd (bucket_records timeframe (dates d) b),
         Max ((\<lambda>i. high (stock_data_of d) ! i) ` set (bucket_records timeframe (dates d) b)),
         Min ((\<lambda>i. low (stock_data_of d) ! i) ` set (bucket_records timeframe (dates d) b)),
         close (stock_data_of d) ! last (bucket_records timeframe (dates d) b),
         sum_list (map (\<lambda>i. volume (stock_data_of d) ! i) (bucket_records timeframe (dates d) b)))"
proof -
  let ?I = "bucket_records timeframe (dates d) b"
  note fr = frame_of_nth[OF al]
  have col: "map f (map (\<lambda>i. frame_of d ! i) ?I) = map (\<lambda>i. f (frame_of d ! i)) ?I" for f :: "real row \<Rightarrow> 'b"
    by simp
  have o: "map (\<lambda>i. row_open (frame_of d ! i)) ?I = map (\<lambda>i. open (stock_data_of d) ! i) ?I"
    by (rule map_cong[OF refl]) (simp add: fr(3) bucket_records_bound)
  have h: "map (\<lambda>i. row_high (frame_of d ! i)) ?I = map (\<lambda>i. high (stock_data_of d) ! i) ?I"
    by (rule map_cong[OF refl]) (simp add: fr(3) bucket_records_bound)
  have l: "map (\<lambda>i. row_low (frame_of d ! i)) ?I = map (\<lambda>i. low (stock_data_of d) ! i) ?I"
    by (rule map_cong[OF refl]) (simp add: fr(3) bucket_records_bound)
  have c: "map (\<lambda>i. row_close (frame_of d ! i)) ?I = map (\<lambda>i. close (stock_data_of d) ! i) ?I"
    by (rule map_cong[OF refl]) (simp add: fr(3) bucket_records_bound)
  have v: "map (\<lambda>i. row_volume (frame_of d ! i)) ?I = map (\<lambda>i. volume (stock_data_of d) ! i) ?I"
    by (rule map_cong[OF refl]) (simp add: fr(3) bucket_records_bound)
  show ?thesis
    unfolding agg_row_def bin_group_records[OF tf al] col o h l c v
      agg_first_map[OF ne] agg_max_map[OF ne] agg_min_map[OF ne] agg_last_map[OF ne] agg_sum_def
    by simp
qed

lemma aggregated_bars:
  assumes tf: "timeframe = ''weekly'' \<or> timeframe = ''monthly''"
    and vd: "list_all valid_date (dates d)" and al: "columns_aligned d"
    and srt: "sorted_wrt (<) (dates d)"
  shows "\<exists>out bars. resample_data_to_timeframe d timeframe = Inr out \<and> data out = Some bars
     \<and> dates out = sorted_list_of_set (bucket_boundary timeframe ` set (dates d))
     \<and> sorted_wrt (<) (dates out)
     \<and> (\<forall>b. b \<in> set (dates out) \<longleftrightarrow> bucket_records timeframe (dates d) b \<noteq> [])
     \<and> length (open bars) = length (dates out) \<and> length (high bars) = length (dates out)
     \<and> length (low bars) = length (dates out) \<and> length (close bars) = length (dates out)
     \<and> length (volume bars) = length (dates out)
     \<and> (\<forall>k < length (dates out).
           open bars ! k = open (stock_data_of d) ! hd (bucket_records timeframe (dates d) (dates out ! k))
         \<and> high bars ! k = Max ((\<lambda>i. high (stock_data_of d) ! i)
                                  ` set (bucket_records timeframe (dates d) (dates out ! k)))
         \<and> low bars ! k = Min ((\<lambda>i. low (stock_data_of d) ! i)
                                 ` set (bucket_records timeframe (dates d) (dates out ! k)))
         \<and> close bars ! k = close (stock_data_of d) ! last (bucket_records timeframe (dates d) (dates out ! k))
         \<and> volume bars ! k = sum_list (map (\<lambda>i. volume (stock_data_of d) ! i)
                                         (bucket_records timeframe (dates d) (dates out ! k))))"
proof -
  let ?rule = "if timeframe = ''weekly'' then ''W-FRI'' else ''M''"
  let ?K = "bucket_boundary timeframe ` set (dates d)"
  let ?rd = "sorted_list_of_set ?K"
  let ?fr = "resampled_frame timeframe d"
  have fK: "finite ?K" by simp
  have fe: "?fr = map (agg_row ?rule (frame_of d)) ?rd"
    by (rule resampled_frame_eq[OF tf vd al srt])
  have rd: "map fst ?fr = ?rd"
    unfolding fe by (simp add: agg_row_def comp_def)
  obtain out where out: "resample_data_to_timeframe d timeframe = Inr out"
    and od: "dates out = map fst ?fr"
    and oa: "data out = Some \<lparr>open = map row_open ?fr, high = map row_high ?fr,
                              low = map row_low ?fr, close = map row_close ?fr,
                              volume = map row_volume ?fr\<rparr>"
    using resample_unfold[OF tf vd al] by simp
  let ?bars = "\<lparr>open = map row_open ?fr, high = map row_high ?fr,
                 low = map row_low ?fr, close = map row_close ?fr,
                 volume = map row_volume ?fr\<rparr>"
  have d1: "dates out = ?rd" unfolding od rd ..
  have d2: "sorted_wrt (<) (dates out)" unfolding d1 using fK by simp
  have d3: "\<forall>b. b \<in> set (dates out) \<longleftrightarrow> bucket_records timeframe (dates d) b \<noteq> []"
    unfolding d1 bucket_records_nonempty using fK by simp
  have len: "length ?fr = length (dates out)" unfolding od by simp
  have vals: "\<forall>k < length (dates out).
           open ?bars ! k = open (stock_data_of d) ! hd (bucket_records timeframe (dates d) (dates out ! k))
         \<and> high ?bars ! k = Max ((\<lambda>i. high (stock_data_of d) ! i)
                                  ` set (bucket_records timeframe (dates d) (dates out ! k)))
         \<and> low ?bars ! k = Min ((\<lambda>i. low (stock_data_of d) ! i)
                                 ` set (bucket_records timeframe (dates d) (dates out ! k)))
         \<and> close ?bars ! k = close (stock_data_of d) ! last (bucket_records timeframe (dates d) (dates out ! k))
         \<and> volume ?bars ! k = sum_list (map (\<lambda>i. volume (stock_data_of d) ! i)
                                         (bucket_records timeframe (dates d) (dates out ! k)))"
  proof (intro allI impI)
    fix k assume k: "k < length (dates out)"
    let ?b = "dates out ! k"
    have kr: "k < length ?rd" using k d1 by simp
    have "?b \<in> set (dates out)" using k by simp
    then have ne: "bucket_records timeframe (dates d) ?b \<noteq> []" using d3 by blast
    have row: "?fr ! k = agg_row ?rule (frame_of d) ?b"
      unfolding fe d1 using kr by simp
    have kf: "k < length ?fr" using k len by simp
    show "open ?bars ! k = open (stock_data_of d) ! hd (bucket_records timeframe (dates d) ?b)
         \<and> high ?bars ! k = Max ((\<lambda>i. high (stock_data_of d) ! i)
                                  ` set (bucket_records timeframe (dates d) ?b))
         \<and> low ?bars ! k = Min ((\<lambda>i. low (stock_data_of d) ! i)
                                 ` set (bucket_records timeframe (dates d) ?b))
         \<and> close ?bars ! k = close (stock_data_of d) ! last (bucket_records timeframe (dates d) ?b)
         \<and> volume ?bars ! k = sum_list (map (\<lambda>i. volume (stock_data_of d) ! i)
                                         (bucket_records timeframe (dates d) ?b))"
      using kf by (simp add: row agg_row_values[OF tf al ne] row_open_def row_high_def row_low_def
          row_close_def row_volume_def)
  qed
  have lens: "length (open ?bars) = length (dates out) \<and> length (high ?bars) = length (dates out)
     \<and> length (low ?bars) = length (dates out) \<and> length (close ?bars) = length (dates out)
     \<and> length (volume ?bars) = length (dates out)"
    using len by simp
  from out oa d1 d2 d3 lens vals show ?thesis by blast
qed

section \<open>Facts about the slots of the remapped and resampled series\<close>

lemma writers_bucket_writers:
  assumes tf: "timeframe = ''weekly'' \<or> timeframe = ''monthly''" and srt: "sorted_wrt (<) rd"
  shows "writers timeframe rd ds vals k = map (\<lambda>i. (i, ds ! i)) (bucket_writers timeframe rd ds vals k)"
proof -
  have "filter (writes_to timeframe rd vals k \<circ> (\<lambda>j. (j, ds ! j))) [0 ..< length ds]
      = filter (\<lambda>i. i < length vals \<and> vals ! i \<noteq> 0 \<and> located_at timeframe rd (ds ! i) k)
          [0 ..< length ds]"
    by (rule filter_cong) (simp_all add: writes_to_def resampled_index_located[OF tf srt])
  then show ?thesis
    unfolding writers_def bucket_writers_def enumerate_as_map filter_map by simp
qed

lemma remap_series_slot:
  assumes tf: "timeframe = ''weekly'' \<or> timeframe = ''monthly''" and srt: "sorted_wrt (<) rd"
    and k: "k < length rd"
  shows "remap_series timeframe rd ds vals ! k =
           (if bucket_writers timeframe rd ds vals k = [] then 0
            else vals ! last (bucket_writers timeframe rd ds vals k))"
proof (cases "bucket_writers timeframe rd ds vals k = []")
  case True
  then show ?thesis
    using remap_series_nth[OF k, of timeframe ds vals]
    by (simp add: writers_bucket_writers[OF tf srt])
next
  case False
  then have "fst (last (map (\<lambda>i. (i, ds ! i)) (bucket_writers timeframe rd ds vals k)))
           = last (bucket_writers timeframe rd ds vals k)"
    by (simp add: last_map)
  with False show ?thesis
    using remap_series_nth[OF k, of timeframe ds vals]
    by (simp add: writers_bucket_writers[OF tf srt])
qed

lemma last_of_sorted_indices:
  assumes "sorted ds" "i \<in> set (filter P [0 ..< length ds])"
  shows "ds ! i \<le> ds ! last (filter P [0 ..< length ds])"
proof -
  let ?r = "filter P [0 ..< length ds]"
  have ne: "?r \<noteq> []" using assms(2) by (metis empty_iff list.set(1))
  have s: "sorted ?r" by (rule sorted_wrt_filter) simp
  from assms(2) obtain m where m: "m < length ?r" "?r ! m = i"
    by (metis in_set_conv_nth)
  have "?r ! m \<le> ?r ! (length ?r - 1)"
    using s m(1) by (intro sorted_nth_mono) simp_all
  then have il: "i \<le> last ?r" using m(2) ne by (simp add: last_conv_nth)
  have "last ?r \<in> set ?r" using ne by (rule last_in_set)
  then have "last ?r \<in> set [0 ..< length ds]" by (rule subsetD[OF filter_is_subset])
  then have ll: "last ?r < length ds" by simp
  show ?thesis using assms(1) il ll by (rule sorted_nth_mono)
qed

lemma period_test_iff:
  assumes tf: "timeframe = ''weekly'' \<or> timeframe = ''monthly''"
    and vb: "valid_date b" and vt: "valid_date t"
  shows "period_start timeframe b \<le> t \<and> t \<le> b \<longleftrightarrow> in_bucket_interval timeframe b t"
proof (cases "timeframe = ''weekly''")
  case True
  have s: "valid_date (add_days (- 6) b)" "toordinal (add_days (- 6) b) = toordinal b - 6"
    using add_days_ok[OF vb, of "- 6"] by simp_all
  have "add_days (- 6) b \<le> t \<longleftrightarrow> toordinal b - 6 \<le> toordinal t"
    using toordinal_le_iff[OF s(1) vt] s(2) by simp
  moreover have "t \<le> b \<longleftrightarrow> toordinal t \<le> toordinal b"
    using toordinal_le_iff[OF vt vb] by simp
  ultimately show ?thesis using True by (simp add: period_start_def in_bucket_interval_def)
next
  case False
  have "replace_day1 b = (fst b, fst (snd b), 1)" by (cases b) (simp add: replace_day1_def)
  with False show ?thesis by (simp add: period_start_def in_bucket_interval_def)
qed

lemma resample_fcv_slot:
  assumes tf: "timeframe = ''weekly'' \<or> timeframe = ''monthly''"
    and k: "k < length resampled_dates"
    and vo: "list_all valid_date original_dates" and vr: "list_all valid_date resampled_dates"
  shows "resample_fcv timeframe original_dates resampled_dates indicator_values ! k =
           (if interval_records timeframe original_dates (length indicator_values)
                 (resampled_dates ! k) = [] then 0
            else indicator_values !
                   last (interval_records timeframe original_dates (length indicator_values)
                           (resampled_dates ! k)))"
proof -
  let ?b = "resampled_dates ! k"
  let ?I = "interval_records timeframe original_dates (length indicator_values) ?b"
  let ?Q = "\<lambda>(j, orig_date). period_start timeframe ?b \<le> orig_date \<and> orig_date \<le> ?b
                                \<and> j < length indicator_values"
  have vb: "valid_date ?b" using vr k by (simp add: list_all_iff)
  have per: "(if timeframe = ''weekly'' then (add_days (- 6) ?b, ?b)
              else if timeframe = ''monthly'' then (replace_day1 ?b, ?b) else (?b, ?b))
             = (period_start timeframe ?b, ?b)"
    using tf by (auto simp: period_start_def)
  have c: "filter (?Q \<circ> (\<lambda>j. (j, original_dates ! j))) [0 ..< length original_dates] = ?I"
    unfolding interval_records_def
  proof (rule filter_cong[OF refl])
    fix j assume "j \<in> set [0 ..< length original_dates]"
    then have "valid_date (original_dates ! j)" using vo by (simp add: list_all_iff)
    from period_test_iff[OF tf vb this]
    show "(?Q \<circ> (\<lambda>j. (j, original_dates ! j))) j
          = (j < length indicator_values \<and> in_bucket_interval timeframe ?b (original_dates ! j))"
      by auto
  qed
  have fl: "filter ?Q (enumerate 0 original_dates) = map (\<lambda>j. (j, original_dates ! j)) ?I"
    unfolding enumerate_as_map filter_map c ..
  have vals: "map (\<lambda>(j, orig_date). indicator_values ! j) (filter ?Q (enumerate 0 original_dates))
          = map (\<lambda>j. indicator_values ! j) ?I"
    unfolding fl by simp
  have "resample_fcv timeframe original_dates resampled_dates indicator_values ! k =
          (let period_fcv_values = map (\<lambda>(j, orig_date). indicator_values ! j)
                                     (filter ?Q (enumerate 0 original_dates))
           in if period_fcv_values \<noteq> [] then last period_fcv_values else 0)"
    using k unfolding resample_fcv_def by (simp add: per Let_def)
  also have "\<dots> = (if ?I = [] then 0 else indicator_values ! last ?I)"
    unfolding vals by (simp add: Let_def last_map)
  finally show ?thesis .
qed

lemma valid_bucket_boundary:
  assumes "timeframe = ''weekly'' \<or> timeframe = ''monthly''" "valid_date t"
  shows "valid_date (bucket_boundary timeframe t)"
  using assms week_end_of_ok(1)[OF assms(2)] valid_date_month_end[OF assms(2)]
  by (auto simp: bucket_boundary_def)

lemma interval_records_last:
  assumes "sorted_wrt (<) ds" "j \<in> set (interval_records timeframe ds n b)"
  shows "ds ! j \<le> ds ! last (interval_records timeframe ds n b)"
proof -
  have "sorted ds" using assms(1) by (simp add: strict_sorted_iff)
  then show ?thesis using assms(2) unfolding interval_records_def by (rule last_of_sorted_indices)
qed


lemma resampled_dates_eq:
  assumes tf: "timeframe = ''weekly'' \<or> timeframe = ''monthly''"
    and vd: "list_all valid_date (dates d)" and al: "columns_aligned d"
    and srt: "sorted_wrt (<) (dates d)"
  shows "map fst (resampled_frame timeframe d)
           = sorted_list_of_set (bucket_boundary timeframe ` set (dates d))"
  unfolding resampled_frame_eq[OF tf vd al srt] by (simp add: agg_row_def comp_def)

lemma resampled_dates_valid:
  assumes tf: "timeframe = ''weekly'' \<or> timeframe = ''monthly''"
    and vd: "list_all valid_date (dates d)" and al: "columns_aligned d"
    and srt: "sorted_wrt (<) (dates d)"
  shows "list_all valid_date (map fst (resampled_frame timeframe d))"
proof -
  have "set (map fst (resampled_frame timeframe d)) = bucket_boundary timeframe ` set (dates d)"
    unfolding resampled_dates_eq[OF tf vd al srt] by simp
  then show ?thesis
    unfolding list_all_iff using vd valid_bucket_boundary[OF tf] by (auto simp: list_all_iff)
qed

lemma signed_take_bit_add_right:
  "signed_take_bit n (a + signed_take_bit n s) = signed_take_bit n (a + (s::int))"
proof -
  have "signed_take_bit n (a + signed_take_bit n s)
      = signed_take_bit n (signed_take_bit n a + signed_take_bit n (signed_take_bit n s))"
    by (rule signed_take_bit_add[symmetric])
  also have "\<dots> = signed_take_bit n (signed_take_bit n a + signed_take_bit n s)" by simp
  also have "\<dots> = signed_take_bit n (a + s)" by (rule signed_take_bit_add)
  finally show ?thesis .
qed

lemma sint_sum_list:
  "sint (sum_list ws :: 64 word) = signed_take_bit 63 (sum_list (map sint ws))"
proof (induction ws)
  case Nil
  show ?case by simp
next
  case (Cons w ws)
  have "sint (sum_list (w # ws)) = signed_take_bit 63 (sint w + sint (sum_list ws))"
    by (simp add: sint_word_add)
  also have "\<dots> = signed_take_bit 63 (sint w + sum_list (map sint ws))"
    unfolding Cons by (rule signed_take_bit_add_right)
  finally show ?case by simp
qed

lemma sint_sum_list_wrap:
  "sint (sum_list ws :: 64 word) = (sum_list (map sint ws) + 2 ^ 63) mod 2 ^ 64 - 2 ^ 63"
  unfolding sint_sum_list by (simp add: signed_take_bit_eq_take_bit_shift take_bit_eq_mod)

lemma sint_sum_list_exact:
  assumes "- (2 ^ 63) \<le> sum_list (map sint ws)" "sum_list (map sint ws) < 2 ^ 63"
  shows "sint (sum_list ws :: 64 word) = sum_list (map sint ws)"
  unfolding sint_sum_list using assms by (rule signed_take_bit_int_eq_self)

lemma in_bucket_interval_iff:
  assumes tf: "timeframe = ''weekly'' \<or> timeframe = ''monthly''"
    and vu: "valid_date u" and vt: "valid_date t"
  shows "in_bucket_interval timeframe (bucket_boundary timeframe u) t
           \<longleftrightarrow> bucket_boundary timeframe t = bucket_boundary timeframe u"
proof (cases "timeframe = ''weekly''")
  case True
  note wu = week_end_of_ok[OF vu]
  have "in_bucket_interval timeframe (bucket_boundary timeframe u) t
      \<longleftrightarrow> 7 * sat_fri_week u \<le> toordinal t + 1 \<and> toordinal t + 1 < 7 * sat_fri_week u + 7"
    using True by (auto simp: in_bucket_interval_def bucket_boundary_def wu(3))
  also have "\<dots> \<longleftrightarrow> sat_fri_week t = sat_fri_week u"
    unfolding sat_fri_week_def[of t] by (rule div7_eq_iff[symmetric])
  also have "\<dots> \<longleftrightarrow> week_end_of t = week_end_of u"
    by (rule week_end_of_eq_iff[OF vt vu, symmetric])
  finally show ?thesis using True by (simp add: bucket_boundary_def)
next
  case False
  obtain y m d where u: "u = (y, m, d)" by (cases u) auto
  obtain y' m' d' where t: "t = (y', m', d')" by (cases t) auto
  from vt t have v: "1 \<le> d'" "d' \<le> days_in_month y' m'" by (simp_all add: valid_date_def)
  have "in_bucket_interval timeframe (bucket_boundary timeframe u) t
      \<longleftrightarrow> (y, m, 1) \<le> (y', m', d') \<and> (y', m', d') \<le> (y, m, days_in_month y m)"
    using False by (simp add: in_bucket_interval_def bucket_boundary_def month_end_def u t)
  also have "\<dots> \<longleftrightarrow> y' = y \<and> m' = m"
  proof
    assume a: "(y, m, 1) \<le> (y', m', d') \<and> (y', m', d') \<le> (y, m, days_in_month y m)"
    then have "y \<le> y'" "y' \<le> y" by (auto simp: less_eq_prod_def)
    then have y: "y' = y" by simp
    with a have "m \<le> m'" "m' \<le> m" by (auto simp: less_eq_prod_def)
    with y show "y' = y \<and> m' = m" by simp
  next
    assume "y' = y \<and> m' = m"
    with v show "(y, m, 1) \<le> (y', m', d') \<and> (y', m', d') \<le> (y, m, days_in_month y m)"
      by (simp add: less_eq_prod_def)
  qed
  also have "\<dots> \<longleftrightarrow> month_end t = month_end u"
    by (auto simp: month_end_def u t)
  finally show ?thesis using False by (simp add: bucket_boundary_def)
qed

lemma interval_records_bucket:
  assumes tf: "timeframe = ''weekly'' \<or> timeframe = ''monthly''"
    and vd: "list_all valid_date ds" and b: "b \<in> bucket_boundary timeframe ` set ds"
  shows "interval_records timeframe ds (length ds) b = bucket_records timeframe ds b"
proof -
  from b obtain u where u: "u \<in> set ds" "b = bucket_boundary timeframe u" by blast
  have vu: "valid_date u" using vd u(1) by (simp add: list_all_iff)
  show ?thesis
    unfolding interval_records_def bucket_records_def
  proof (rule filter_cong[OF refl])
    fix j assume "j \<in> set [0 ..< length ds]"
    then have j: "j < length ds" by simp
    then have "valid_date (ds ! j)" using vd by (simp add: list_all_iff)
    from in_bucket_interval_iff[OF tf vu this] j
    show "(j < length ds \<and> in_bucket_interval timeframe b (ds ! j))
          = (bucket_boundary timeframe (ds ! j) = b)"
      unfolding u(2) by simp
  qed
qed

lemma bucket_writers_bucket:
  assumes srt: "sorted_wrt (<) rd" and k: "k < length rd"
    and cover: "bucket_boundary timeframe ` set ds \<subseteq> set rd"
    and len: "length vals = length ds"
  shows "bucket_writers timeframe rd ds vals k
           = filter (\<lambda>i. vals ! i \<noteq> 0) (bucket_records timeframe ds (rd ! k))"
proof -
  have "filter (\<lambda>i. i < length vals \<and> vals ! i \<noteq> 0 \<and> located_at timeframe rd (ds ! i) k)
          [0 ..< length ds]
      = filter (\<lambda>i. bucket_boundary timeframe (ds ! i) = rd ! k \<and> vals ! i \<noteq> 0) [0 ..< length ds]"
  proof (rule filter_cong[OF refl])
    fix i assume "i \<in> set [0 ..< length ds]"
    then have i: "i < length ds" by simp
    then have "bucket_boundary timeframe (ds ! i) \<in> set rd" using cover by auto
    from located_at_member[OF srt this, of k] k i len
    show "(i < length vals \<and> vals ! i \<noteq> 0 \<and> located_at timeframe rd (ds ! i) k)
          = (bucket_boundary timeframe (ds ! i) = rd ! k \<and> vals ! i \<noteq> 0)"
      by auto
  qed
  then show ?thesis
    unfolding bucket_writers_def bucket_records_def by (simp add: conj_commute)
qed



lemma resample_agg_sort: "resample_agg rule (sort_key fst df) = resample_agg rule df"
proof -
  have "sorted (map fst (sort_key fst df))" by simp
  then have "sort_key fst (sort_key fst df) = sort_key fst df" by (rule sort_key_id_if_sorted)
  then show ?thesis unfolding resample_agg_def by (simp only:)
qed

lemma resampled_axis_ascending:
  assumes tf: "timeframe = ''weekly'' \<or> timeframe = ''monthly''"
    and vd: "list_all valid_date (dates d)" and al: "columns_aligned d"
  shows "sorted_wrt (<) (map fst (resampled_frame timeframe d))"
proof (cases "dates d = []")
  case True
  then show ?thesis by (simp add: resampled_frame_empty)
next
  case False
  let ?rule = "if timeframe = ''weekly'' then ''W-FRI'' else ''M''"
  let ?s = "sort_key fst (frame_of d)"
  let ?ds = "map fst ?s"
  note fr = frame_of_nth[OF al]
  have ne: "?s \<noteq> []" using fr(1) False by (metis length_0_conv length_sort)
  have sm: "sorted ?ds" by simp
  have "set ?ds = set (dates d)" using fr(2) by (metis set_map set_sort)
  then have v: "list_all valid_date ?ds" using vd by (simp add: list_all_iff)
  have dne: "?ds \<noteq> []" using ne by simp
  have h: "fst (hd ?s) = hd ?ds" using ne by (simp add: hd_map)
  have l: "fst (last ?s) = last ?ds" using ne by (simp add: last_map)
  have rb: "rollforward ?rule = bucket_boundary timeframe" by (rule rollforward_bucket[OF tf])
  note bc = bin_labels_cover[OF tf v sm dne]
  have "resampled_frame timeframe d = dropna (resample_agg ?rule ?s)"
    by (simp add: resampled_frame_def resample_agg_sort)
  also have "\<dots> = map (agg_row ?rule ?s)
       (filter (\<lambda>b. bin_group ?rule ?s b \<noteq> [])
          (bin_labels ?rule (rollforward ?rule (fst (hd ?s))) (rollforward ?rule (fst (last ?s)))))"
    by (rule resample_agg_sorted[OF sm ne])
  finally have "map fst (resampled_frame timeframe d)
      = filter (\<lambda>b. bin_group ?rule ?s b \<noteq> [])
          (bin_labels ?rule (bucket_boundary timeframe (hd ?ds)) (bucket_boundary timeframe (last ?ds)))"
    unfolding rb h l by (simp add: agg_row_def comp_def)
  then show ?thesis using conjunct1[OF bc] by (simp add: sorted_wrt_filter)
qed

section \<open>Daily passthrough\<close>

text \<open>
  C6. With the granularity \<^verbatim>\<open>daily\<close>, \<^verbatim>\<open>resample_data_to_timeframe\<close> returns its
  input dataset itself, every field, signal series, indicator series and overlay unchanged,
  and \<^verbatim>\<open>map_signals_to_timeframe\<close> returns the signal series it was given. This holds for
  every dataset, well-formed or not.
\<close>

theorem daily_is_identity:
  "resample_data_to_timeframe d ''daily'' = Inr d
   \<and> map_signals_to_timeframe original_signals original_dates resampled_dates ''daily''
       = original_signals"
  by (simp add: resample_data_to_timeframe_def map_signals_to_timeframe_def)

section \<open>Unsupported granularity and shape mismatch\<close>

text \<open>
  C9, as the claim states it, fails: for the token \<^verbatim>\<open>hourly\<close>, which is none of the three
  supported ones, the function raises nothing and returns the dataset it was given.
\<close>

theorem unsupported_token_counterexample:
  "''hourly'' \<notin> supported
   \<and> resample_data_to_timeframe ex_short_signal ''hourly'' = Inr ex_short_signal"
  by (simp add: supported_def resample_data_to_timeframe_def ex_short_signal_def to_datetime_def
       DataFrame_def valid_date_def days_in_month_def)

text \<open>
  C9, amended. For a granularity token that is not \<^verbatim>\<open>daily\<close>, \<^verbatim>\<open>weekly\<close> or
  \<^verbatim>\<open>monthly\<close>, no granularity error exists: after the dates are parsed and the frame is
  built, the input dataset is returned unchanged; the only failure is the
  \<^verbatim>\<open>ValueError\<close> of pandas for an unparsable date or price columns of unequal length.
\<close>

theorem unsupported_token_returns_input:
  assumes "timeframe \<notin> supported"
  shows "resample_data_to_timeframe d timeframe =
           (if list_all valid_date (dates d) \<and> columns_aligned d then Inr d else Inl ValueError)"
  using assms
  by (auto simp: resample_data_to_timeframe_def supported_def to_datetime_def DataFrame_def
      columns_aligned_def stock_data_of_def Let_def split: option.splits)

theorem unsupported_token_returns_input_witness:
  "''yearly'' \<notin> supported
   \<and> resample_data_to_timeframe ex_short_signal ''yearly'' = Inr ex_short_signal"
proof -
  have h: "''yearly'' \<notin> supported" by (simp add: supported_def)
  have "list_all valid_date (dates ex_short_signal) \<and> columns_aligned ex_short_signal"
    by (simp add: ex_short_signal_def columns_aligned_def stock_data_of_def valid_date_def
        days_in_month_def)
  with unsupported_token_returns_input [OF h, of ex_short_signal] h show ?thesis by simp
qed

text \<open>
  C8, as the claim states it, fails: a dataset whose signal series and composite series are
  shorter than the date axis is aggregated to a weekly dataset without any error.
\<close>

theorem short_signal_counterexample:
  "resample_data_to_timeframe ex_short_signal ''weekly'' =
     Inr \<lparr>symbol = ''X'', dates = [(2024, 1, 5)],
          data = Some \<lparr>open = [10], high = [13], low = [9], close = [12], volume = [300]\<rparr>,
          signals = [(''macd_signal'', [1])],
          indicators = [(''Final_Composite_Value'', [0.2])],
          trendlines = Some [], last_updated = None, error = None\<rparr>"
  by code_simp

text \<open>
  C8, amended. For a granularity other than \<^verbatim>\<open>daily\<close> and parsable dates, the
  aggregation fails exactly when one of the five price columns (open, high, low, close,
  volume) has a length different from the date axis: then the \<^verbatim>\<open>ValueError\<close> of the
  frame constructor is raised and there is no result, partial or not. When the five
  columns agree with the date axis a dataset is returned, whatever the lengths of the
  signal series and of the composite series, which are not validated.
\<close>

theorem shape_mismatch_behaviour:
  assumes "timeframe \<noteq> ''daily''" and "list_all valid_date (dates d)"
  shows "(columns_aligned d \<longrightarrow> (\<exists>out. resample_data_to_timeframe d timeframe = Inr out))
       \<and> (\<not> columns_aligned d \<longrightarrow> resample_data_to_timeframe d timeframe = Inl ValueError)"
  using assms
  by (auto simp: resample_data_to_timeframe_def to_datetime_def DataFrame_def
      columns_aligned_def stock_data_of_def Let_def split: option.splits)

theorem shape_mismatch_behaviour_witness:
  "''monthly'' \<noteq> ''daily'' \<and> list_all valid_date (dates ex_short_volume)
   \<and> \<not> columns_aligned ex_short_volume
   \<and> resample_data_to_timeframe ex_short_volume ''monthly'' = Inl ValueError"
proof -
  have h1: "''monthly'' \<noteq> ''daily''" by simp
  have h2: "list_all valid_date (dates ex_short_volume)"
    by (simp add: ex_short_volume_def valid_date_def days_in_month_def)
  have h3: "\<not> columns_aligned ex_short_volume"
    by (simp add: ex_short_volume_def columns_aligned_def stock_data_of_def)
  from shape_mismatch_behaviour [OF h1 h2] h1 h2 h3 show ?thesis by blast
qed

section \<open>The weekly bucket boundary\<close>

text \<open>
  C5, as the claim states it, fails: the boundary is not always the Friday of the ISO week
  that contains the date. Saturday 2024-01-06 has the boundary 2024-01-12, while the Friday
  of its ISO week is 2024-01-05; and Monday 2024-01-01 and Sunday 2024-01-07, two days of
  one ISO week, have different boundaries.
\<close>

theorem iso_week_counterexample:
  "weekday (2024, 1, 6) = 5 \<and> week_end_of (2024, 1, 6) = (2024, 1, 12)
   \<and> iso_week_friday (2024, 1, 6) = (2024, 1, 5)
   \<and> iso_week_friday (2024, 1, 1) = iso_week_friday (2024, 1, 7)
   \<and> week_end_of (2024, 1, 1) \<noteq> week_end_of (2024, 1, 7)"
  by code_simp

text \<open>
  C5, amended. For every calendar date the weekly boundary is the date plus
  \<open>(4 - weekday) mod 7\<close> days with Monday as 0. It is a Friday, the first one on or after
  the date: the Friday of the ISO week of the date for a date from Monday to Friday, the
  Friday of the following ISO week for a Saturday or a Sunday. Two dates have the same
  boundary exactly when they lie in the same week running from Saturday to Friday. The
  dates 2024-01-01 (a Monday) to 2024-01-05 all have the boundary 2024-01-05.
\<close>

theorem weekly_boundary:
  assumes "valid_date t" and "valid_date t'"
  shows "week_end_of t = add_days ((4 - weekday t) mod 7) t
       \<and> valid_date (week_end_of t)
       \<and> toordinal (week_end_of t) = toordinal t + (4 - weekday t) mod 7
       \<and> weekday (week_end_of t) = 4
       \<and> t \<le> week_end_of t \<and> toordinal (week_end_of t) < toordinal t + 7
       \<and> (weekday t \<le> 4 \<longrightarrow> week_end_of t = iso_week_friday t)
       \<and> (4 < weekday t \<longrightarrow> week_end_of t = add_days 7 (iso_week_friday t))
       \<and> (week_end_of t = week_end_of t' \<longleftrightarrow> sat_fri_week t = sat_fri_week t')
       \<and> map week_end_of [(2024, 1, 1), (2024, 1, 2), (2024, 1, 3), (2024, 1, 4), (2024, 1, 5)]
           = replicate 5 (2024, 1, 5)"
proof -
  note w = week_end_of_ok[OF assms(1)]
  note w' = week_end_of_ok[OF assms(2)]
  have r: "0 \<le> weekday t" "weekday t < 7" using weekday_range[of t] by simp_all
  have c1: "week_end_of t = add_days ((4 - weekday t) mod 7) t" by (simp add: week_end_of_def)
  have c4: "weekday (week_end_of t) = 4"
    unfolding weekday_def[of "week_end_of t"] w(3) by presburger
  have m: "0 \<le> (4 - weekday t) mod 7" "(4 - weekday t) mod 7 < 7" by simp_all
  have "toordinal t \<le> toordinal (week_end_of t)" using w(2) m by simp
  then have c5: "t \<le> week_end_of t" using toordinal_le_iff[OF assms(1) w(1)] by simp
  have c6: "toordinal (week_end_of t) < toordinal t + 7" using w(2) m by simp
  have c7: "weekday t \<le> 4 \<longrightarrow> week_end_of t = iso_week_friday t"
  proof
    assume "weekday t \<le> 4"
    with r have "(4 - weekday t) mod 7 = 4 - weekday t" by simp
    then show "week_end_of t = iso_week_friday t" by (simp add: week_end_of_def iso_week_friday_def)
  qed
  have c8: "4 < weekday t \<longrightarrow> week_end_of t = add_days 7 (iso_week_friday t)"
  proof
    assume a: "4 < weekday t"
    have e: "(4 - weekday t) mod 7 = 11 - weekday t"
      using a r by presburger
    have f: "valid_date (iso_week_friday t)" "toordinal (iso_week_friday t) = toordinal t + (4 - weekday t)"
      using add_days_ok[OF assms(1), of "4 - weekday t"] by (simp_all add: iso_week_friday_def)
    have g: "valid_date (add_days 7 (iso_week_friday t))"
        "toordinal (add_days 7 (iso_week_friday t)) = toordinal t + (4 - weekday t) + 7"
      using add_days_ok[OF f(1), of 7] f(2) by simp_all
    show "week_end_of t = add_days 7 (iso_week_friday t)"
      by (rule toordinal_inj[OF w(1) g(1)]) (simp add: w(2) g(2) e)
  qed
  have c9: "week_end_of t = week_end_of t' \<longleftrightarrow> sat_fri_week t = sat_fri_week t'"
  proof
    assume "week_end_of t = week_end_of t'"
    then have "toordinal (week_end_of t) = toordinal (week_end_of t')" by simp
    then show "sat_fri_week t = sat_fri_week t'" unfolding w(3) w'(3) by simp
  next
    assume "sat_fri_week t = sat_fri_week t'"
    then have "toordinal (week_end_of t) = toordinal (week_end_of t')" unfolding w(3) w'(3) by simp
    then show "week_end_of t = week_end_of t'" by (rule toordinal_inj[OF w(1) w'(1)])
  qed
  have c10: "map week_end_of [(2024, 1, 1), (2024, 1, 2), (2024, 1, 3), (2024, 1, 4), (2024, 1, 5)]
           = replicate 5 (2024, 1, 5)"
    by code_simp
  from c1 w(1) w(2) c4 c5 c6 c7 c8 c9 c10 show ?thesis by blast
qed

theorem weekly_boundary_witness:
  "valid_date (2024, 1, 6) \<and> valid_date (2024, 1, 12) \<and> weekday (2024, 1, 6) = 5
   \<and> week_end_of (2024, 1, 6) = (2024, 1, 12) \<and> weekday (week_end_of (2024, 1, 6)) = 4
   \<and> week_end_of (2024, 1, 6) = add_days 7 (iso_week_friday (2024, 1, 6))
   \<and> week_end_of (2024, 1, 6) = week_end_of (2024, 1, 12)"
proof -
  have h1: "valid_date (2024, 1, 6)" by code_simp
  have h2: "valid_date (2024, 1, 12)" by code_simp
  have h3: "weekday (2024, 1, 6) = 5" by code_simp
  have h4: "week_end_of (2024, 1, 6) = (2024, 1, 12)" by code_simp
  have h5: "sat_fri_week (2024, 1, 6) = sat_fri_week (2024, 1, 12)" by code_simp
  have h6: "4 < weekday (2024, 1, 6)" by (simp add: h3)
  from weekly_boundary [OF h1 h2] h5 h6
  have "weekday (week_end_of (2024, 1, 6)) = 4
      \<and> week_end_of (2024, 1, 6) = add_days 7 (iso_week_friday (2024, 1, 6))
      \<and> week_end_of (2024, 1, 6) = week_end_of (2024, 1, 12)"
    by blast
  with h1 h2 h3 h4 show ?thesis by blast
qed

section \<open>The JSON client without data\<close>

text \<open>
  C10, as the claim states it, fails: the client keeps what it loaded in its cache and looks
  there first. After one call that loaded the file of \<^verbatim>\<open>^KS11\<close>, a second call made when
  the file is missing returns the cached data, with one date and without an error key.
\<close>

theorem cached_data_counterexample:
  "no_data_in_file fs_without_file client_after_load ''^KS11''
   \<and> dates (fst (get_signals_data fs_without_file client_after_load ''^KS11'' ''1y''))
        = [JStr ''2024-01-02'']
   \<and> error (fst (get_signals_data fs_without_file client_after_load ''^KS11'' ''1y'')) = None"
  by code_simp

text \<open>
  C10, amended. For every symbol whose JSON data file is missing, unreadable or empty, and
  for which the cache of the client holds no data, \<^verbatim>\<open>get_signals_data\<close> raises no
  exception and returns the dictionary whose symbol is the argument, whose dates are the
  empty list, whose signals and indicators are empty mappings, and which has an error key.
\<close>

theorem missing_file_gives_error_dict:
  assumes "no_data_in_file fs c symbol'" and "no_data_in_cache c symbol'"
  shows "fst (get_signals_data fs c symbol' period) = error_dict symbol' DataNotFound
       \<and> symbol (fst (get_signals_data fs c symbol' period)) = symbol'
       \<and> dates (fst (get_signals_data fs c symbol' period)) = []
       \<and> signals (fst (get_signals_data fs c symbol' period)) = []
       \<and> indicators (fst (get_signals_data fs c symbol' period)) = []
       \<and> error (fst (get_signals_data fs c symbol' period)) \<noteq> None"
proof -
  have "fst (get_signals_data fs c symbol' period) = error_dict symbol' DataNotFound"
    using assms
    by (auto simp: get_signals_data_def no_data_in_file_def no_data_in_cache_def
        load_symbol_data_def symbol_path_def Let_def split: option.splits file_state.splits)
  then show ?thesis by (simp add: error_dict_def)
qed

theorem missing_file_gives_error_dict_witness:
  "no_data_in_file fs_without_file (new_client ''data'') ''^KS11''
   \<and> no_data_in_cache (new_client ''data'') ''^KS11''
   \<and> fst (get_signals_data fs_without_file (new_client ''data'') ''^KS11'' ''1y'')
        = error_dict ''^KS11'' DataNotFound"
proof -
  have h1: "no_data_in_file fs_without_file (new_client ''data'') ''^KS11''"
    by (simp add: no_data_in_file_def fs_without_file_def)
  have h2: "no_data_in_cache (new_client ''data'') ''^KS11''"
    by (simp add: no_data_in_cache_def new_client_def)
  from missing_file_gives_error_dict [OF h1 h2] h1 h2 show ?thesis by blast
qed

section \<open>Remapping the signals\<close>





section \<open>Resampling the composite value\<close>

text \<open>
  C3. For a weekly or monthly aggregation, the slot of every bucket in the resampled
  composite series is the composite value of the chronologically last daily record whose
  date lies in the interval of the bucket, from six days before the boundary (weekly) or
  from the first day of the month of the boundary (monthly) up to the boundary; the slot is
  0 when no daily record with a composite value lies in the interval, and nothing is taken
  from another bucket. This holds for the composite series of the output of
  \<^verbatim>\<open>resample_data_to_timeframe\<close>, which has one slot per bucket, for a dataset with
  parsable ascending dates whose composite series is not empty (of any length), and for the
  resampling loop on any axis of dates. The composite values 0.2, 0.6 and 0.9 on three days of one week
  give 0.9.
\<close>

theorem composite_last_in_period:
  assumes tf: "timeframe = ''weekly'' \<or> timeframe = ''monthly''"
    and vd: "list_all valid_date (dates d)" and al: "columns_aligned d"
    and srt: "sorted_wrt (<) (dates d)"
    and dn: "distinct (map fst (indicators d))"
    and fcv: "(''Final_Composite_Value'', composite) \<in> set (indicators d)"
    and ne: "composite = [] \<longrightarrow> dates d = []"
  shows "(\<exists>out fcv. resample_data_to_timeframe d timeframe = Inr out
           \<and> map_of (indicators out) ''Final_Composite_Value'' = Some fcv
           \<and> length fcv = length (dates out)
           \<and> (\<forall>k < length (dates out).
                 (interval_records timeframe (dates d) (length composite) (dates out ! k) = []
                    \<longrightarrow> fcv ! k = 0)
               \<and> (interval_records timeframe (dates d) (length composite) (dates out ! k) \<noteq> []
                    \<longrightarrow> fcv ! k = composite !
                          last (interval_records timeframe (dates d) (length composite)
                                  (dates out ! k)))))
       \<and> (list_all valid_date resampled_dates \<and> k < length resampled_dates \<longrightarrow>
            (interval_records timeframe (dates d) (length composite) (resampled_dates ! k) = []
               \<longrightarrow> resample_fcv timeframe (dates d) resampled_dates composite ! k = 0)
          \<and> (interval_records timeframe (dates d) (length composite) (resampled_dates ! k) \<noteq> []
               \<longrightarrow> resample_fcv timeframe (dates d) resampled_dates composite ! k
                     = composite ! last (interval_records timeframe (dates d) (length composite)
                                          (resampled_dates ! k))))
       \<and> (\<forall>j \<in> set (interval_records timeframe (dates d) (length composite) b).
             dates d ! j
               \<le> dates d ! last (interval_records timeframe (dates d) (length composite) b))
       \<and> resample_fcv ''weekly'' [(2024, 1, 2), (2024, 1, 3), (2024, 1, 4)] [(2024, 1, 5)]
            [0.2, 0.6, 0.9] = [0.9]"
proof -
  let ?rd = "map fst (resampled_frame timeframe d)"
  let ?fcv = "if ''Final_Composite_Value'' = ''Final_Composite_Value'' \<and> length composite > 0
              then resample_fcv timeframe (dates d) ?rd composite else composite"
  obtain out where out: "resample_data_to_timeframe d timeframe = Inr out"
    and od: "dates out = ?rd"
    and oi: "indicators out = map (\<lambda>(indicator_name, indicator_values).
                   if indicator_name = ''Final_Composite_Value'' \<and> length indicator_values > 0
                   then (indicator_name, resample_fcv timeframe (dates d) ?rd indicator_values)
                   else (indicator_name, indicator_values)) (indicators d)"
    using resample_unfold[OF tf vd al] by simp
  have lk: "map_of (indicators out) ''Final_Composite_Value'' = Some ?fcv"
    unfolding oi by (rule indicator_lookup[OF dn fcv])
  have eq: "?fcv = resample_fcv timeframe (dates d) ?rd composite"
  proof (cases "composite = []")
    case True
    with ne have "dates d = []" by simp
    then have "?rd = []" by (simp add: resampled_frame_empty)
    with True show ?thesis by (simp add: resample_fcv_def)
  next
    case False
    then show ?thesis by simp
  qed
  have l: "length ?fcv = length (dates out)"
    unfolding eq od by (rule length_resample_fcv)
  have vr: "list_all valid_date ?rd" by (rule resampled_dates_valid[OF tf vd al srt])
  have n: "\<forall>k < length (dates out).
                 (interval_records timeframe (dates d) (length composite) (dates out ! k) = []
                    \<longrightarrow> ?fcv ! k = 0)
               \<and> (interval_records timeframe (dates d) (length composite) (dates out ! k) \<noteq> []
                    \<longrightarrow> ?fcv ! k = composite !
                          last (interval_records timeframe (dates d) (length composite)
                                  (dates out ! k)))"
  proof (intro allI impI)
    fix k assume "k < length (dates out)"
    then have k': "k < length ?rd" by (simp add: od)
    show "(interval_records timeframe (dates d) (length composite) (dates out ! k) = []
                    \<longrightarrow> ?fcv ! k = 0)
               \<and> (interval_records timeframe (dates d) (length composite) (dates out ! k) \<noteq> []
                    \<longrightarrow> ?fcv ! k = composite !
                          last (interval_records timeframe (dates d) (length composite)
                                  (dates out ! k)))"
      unfolding eq od resample_fcv_slot[OF tf k' vd vr] by simp
  qed
  have g: "list_all valid_date resampled_dates \<and> k < length resampled_dates \<longrightarrow>
            (interval_records timeframe (dates d) (length composite) (resampled_dates ! k) = []
               \<longrightarrow> resample_fcv timeframe (dates d) resampled_dates composite ! k = 0)
          \<and> (interval_records timeframe (dates d) (length composite) (resampled_dates ! k) \<noteq> []
               \<longrightarrow> resample_fcv timeframe (dates d) resampled_dates composite ! k
                     = composite ! last (interval_records timeframe (dates d) (length composite)
                                          (resampled_dates ! k)))"
  proof
    assume a: "list_all valid_date resampled_dates \<and> k < length resampled_dates"
    then have k: "k < length resampled_dates" and v: "list_all valid_date resampled_dates"
      by simp_all
    show "(interval_records timeframe (dates d) (length composite) (resampled_dates ! k) = []
               \<longrightarrow> resample_fcv timeframe (dates d) resampled_dates composite ! k = 0)
          \<and> (interval_records timeframe (dates d) (length composite) (resampled_dates ! k) \<noteq> []
               \<longrightarrow> resample_fcv timeframe (dates d) resampled_dates composite ! k
                     = composite ! last (interval_records timeframe (dates d) (length composite)
                                          (resampled_dates ! k)))"
      unfolding resample_fcv_slot[OF tf k vd v] by simp
  qed
  have c: "\<forall>j \<in> set (interval_records timeframe (dates d) (length composite) b).
             dates d ! j
               \<le> dates d ! last (interval_records timeframe (dates d) (length composite) b)"
    using interval_records_last[OF srt] by blast
  have e: "resample_fcv ''weekly'' [(2024, 1, 2), (2024, 1, 3), (2024, 1, 4)] [(2024, 1, 5)]
            [0.2, 0.6, 0.9] = [0.9]"
    by code_simp
  from out lk l n have p: "\<exists>out fcv. resample_data_to_timeframe d timeframe = Inr out
           \<and> map_of (indicators out) ''Final_Composite_Value'' = Some fcv
           \<and> length fcv = length (dates out)
           \<and> (\<forall>k < length (dates out).
                 (interval_records timeframe (dates d) (length composite) (dates out ! k) = []
                    \<longrightarrow> fcv ! k = 0)
               \<and> (interval_records timeframe (dates d) (length composite) (dates out ! k) \<noteq> []
                    \<longrightarrow> fcv ! k = composite !
                          last (interval_records timeframe (dates d) (length composite)
                                  (dates out ! k))))"
    by blast
  from p g c e show ?thesis by blast
qed

theorem composite_last_in_period_witness:
  "list_all valid_date (dates ex_two_months) \<and> columns_aligned ex_two_months
   \<and> sorted_wrt (<) (dates ex_two_months)
   \<and> resample_data_to_timeframe ex_two_months ''monthly'' =
       Inr \<lparr>symbol = ''X'', dates = [(2024, 1, 31), (2024, 2, 29)],
            data = Some \<lparr>open = [10, 9], high = [13, 14], low = [9, 8], close = [9, 13],
                         volume = [300, 700]\<rparr>,
            signals = [(''macd_signal'', [1, 1])],
            indicators = [(''Final_Composite_Value'', [0.2, 0.4])],
            trendlines = Some [], last_updated = None, error = None\<rparr>
   \<and> interval_records ''monthly'' (dates ex_two_months) 4 (2024, 2, 29) = [2, 3]
   \<and> interval_records ''monthly'' (dates ex_two_months) 4 (2024, 3, 31) = []
   \<and> resample_fcv ''monthly'' (dates ex_two_months)
        [(2024, 1, 31), (2024, 2, 29), (2024, 3, 31)] [0.1, 0.2, 0.3, 0.4] ! 2 = 0
   \<and> resample_fcv ''monthly'' (dates ex_two_months)
        [(2024, 1, 31), (2024, 2, 29), (2024, 3, 31)] [0.1, 0.2, 0.3, 0.4] ! 1 = 0.4
   \<and> resample_data_to_timeframe ex_short_composite ''weekly'' =
       Inr \<lparr>symbol = ''X'', dates = [(2024, 1, 5), (2024, 1, 12)],
            data = Some \<lparr>open = [10, 12], high = [11, 13], low = [9, 10], close = [11, 12],
                         volume = [100, 200]\<rparr>,
            signals = [],
            indicators = [(''Final_Composite_Value'', [0.7, 0])],
            trendlines = Some [], last_updated = None, error = None\<rparr>
   \<and> interval_records ''weekly'' (dates ex_short_composite) 1 (2024, 1, 12) = []"
proof -
  have h1: "''monthly'' = ''weekly'' \<or> ''monthly'' = ''monthly''" by simp
  have h2: "list_all valid_date (dates ex_two_months)" by code_simp
  have h3: "columns_aligned ex_two_months" by code_simp
  have h4: "sorted_wrt (<) (dates ex_two_months)" by (simp add: ex_two_months_def)
  have h5: "distinct (map fst (indicators ex_two_months))" by (simp add: ex_two_months_def)
  have h6: "(''Final_Composite_Value'', [0.1, 0.2, 0.3, 0.4]) \<in> set (indicators ex_two_months)"
    by (simp add: ex_two_months_def)
  have h7: "[0.1, 0.2, 0.3, 0.4 :: real] = [] \<longrightarrow> dates ex_two_months = []" by simp
  have r: "resample_data_to_timeframe ex_two_months ''monthly'' =
       Inr \<lparr>symbol = ''X'', dates = [(2024, 1, 31), (2024, 2, 29)],
            data = Some \<lparr>open = [10, 9], high = [13, 14], low = [9, 8], close = [9, 13],
                         volume = [300, 700]\<rparr>,
            signals = [(''macd_signal'', [1, 1])],
            indicators = [(''Final_Composite_Value'', [0.2, 0.4])],
            trendlines = Some [], last_updated = None, error = None\<rparr>"
    by code_simp
  have i1: "interval_records ''monthly'' (dates ex_two_months) 4 (2024, 2, 29) = [2, 3]"
    by code_simp
  have i2: "interval_records ''monthly'' (dates ex_two_months) 4 (2024, 3, 31) = []"
    by code_simp
  have v: "list_all valid_date [(2024, 1, 31), (2024, 2, 29), (2024, 3, 31)]" by code_simp
  have l4: "length [0.1, 0.2, 0.3, 0.4 :: real] = 4" by simp
  note t = composite_last_in_period [OF h1 h2 h3 h4 h5 h6 h7,
      of "[(2024, 1, 31), (2024, 2, 29), (2024, 3, 31)]"]
  from t [of 2] v i2 have z: "resample_fcv ''monthly'' (dates ex_two_months)
        [(2024, 1, 31), (2024, 2, 29), (2024, 3, 31)] [0.1, 0.2, 0.3, 0.4] ! 2 = 0"
    unfolding l4 by simp
  from t [of 1] v i1 have o: "resample_fcv ''monthly'' (dates ex_two_months)
        [(2024, 1, 31), (2024, 2, 29), (2024, 3, 31)] [0.1, 0.2, 0.3, 0.4] ! 1 = 0.4"
    unfolding l4 by simp
  have s: "resample_data_to_timeframe ex_short_composite ''weekly'' =
       Inr \<lparr>symbol = ''X'', dates = [(2024, 1, 5), (2024, 1, 12)],
            data = Some \<lparr>open = [10, 12], high = [11, 13], low = [9, 10], close = [11, 12],
                         volume = [100, 200]\<rparr>,
            signals = [],
            indicators = [(''Final_Composite_Value'', [0.7, 0])],
            trendlines = Some [], last_updated = None, error = None\<rparr>"
    by code_simp
  have i3: "interval_records ''weekly'' (dates ex_short_composite) 1 (2024, 1, 12) = []"
    by code_simp
  from h2 h3 h4 r i1 i2 z o s i3 show ?thesis by blast
qed

section \<open>Lengths of the output series\<close>

text \<open>
  C7, as the claim states it, fails: an indicator series other than the composite value is
  not resampled. A well-formed dataset of two days of one week with a second indicator
  aggregates to one weekly bar, and the second indicator keeps its two daily values.
\<close>

theorem extra_indicator_counterexample:
  "well_formed ex_rsi
   \<and> resample_data_to_timeframe ex_rsi ''weekly'' =
       Inr \<lparr>symbol = ''X'', dates = [(2024, 1, 5)],
            data = Some \<lparr>open = [10], high = [13], low = [9], close = [12], volume = [300]\<rparr>,
            signals = [(''macd_signal'', [1])],
            indicators = [(''Final_Composite_Value'', [0.3]), (''rsi'', [40, 60])],
            trendlines = Some [], last_updated = None, error = None\<rparr>"
  by code_simp

text \<open>
  C7, amended. For every granularity token and every well-formed dataset, the aggregation
  returns a dataset in which each of the five price columns, every signal series and the
  composite series has exactly the length of the date axis of the output, and index \<open>k\<close>
  of each of them refers to the same bucket, the one with the boundary at index \<open>k\<close> of
  the date axis: for the weekly and the monthly granularity the bar at \<open>k\<close> aggregates
  the daily records of that bucket (first open, highest high, lowest low, last close, the
  volumes summed in 64-bit arithmetic), slot \<open>k\<close> of a signal holds the last nonzero entry
  among those records (0 when there is none), and slot \<open>k\<close> of the composite series holds
  the composite value of the last of those records; for any other token the output is the
  input. Every indicator series other than the composite value is passed through
  unchanged, with the length of the daily axis.
\<close>

theorem output_series_aligned:
  assumes wf: "well_formed d"
  shows "\<exists>out. resample_data_to_timeframe d timeframe = Inr out
           \<and> columns_aligned out
           \<and> list_all (\<lambda>s. length (snd s) = length (dates out)) (signals out)
           \<and> (\<forall>fcv. (''Final_Composite_Value'', fcv) \<in> set (indicators out)
                      \<longrightarrow> length fcv = length (dates out))
           \<and> filter (\<lambda>s. fst s \<noteq> ''Final_Composite_Value'') (indicators out)
               = filter (\<lambda>s. fst s \<noteq> ''Final_Composite_Value'') (indicators d)
           \<and> (timeframe \<noteq> ''weekly'' \<and> timeframe \<noteq> ''monthly'' \<longrightarrow> out = d)
           \<and> (timeframe = ''weekly'' \<or> timeframe = ''monthly'' \<longrightarrow>
              dates out = sorted_list_of_set (bucket_boundary timeframe ` set (dates d))
            \<and> (\<forall>k < length (dates out).
                  bucket_records timeframe (dates d) (dates out ! k) \<noteq> []
                \<and> open (stock_data_of out) ! k
                    = open (stock_data_of d) ! hd (bucket_records timeframe (dates d) (dates out ! k))
                \<and> high (stock_data_of out) ! k
                    = Max ((\<lambda>i. high (stock_data_of d) ! i)
                             ` set (bucket_records timeframe (dates d) (dates out ! k)))
                \<and> low (stock_data_of out) ! k
                    = Min ((\<lambda>i. low (stock_data_of d) ! i)
                             ` set (bucket_records timeframe (dates d) (dates out ! k)))
                \<and> close (stock_data_of out) ! k
                    = close (stock_data_of d) ! last (bucket_records timeframe (dates d) (dates out ! k))
                \<and> volume (stock_data_of out) ! k
                    = sum_list (map (\<lambda>i. volume (stock_data_of d) ! i)
                                  (bucket_records timeframe (dates d) (dates out ! k)))
                \<and> (\<forall>signal_name signal_values.
                      (signal_name, signal_values) \<in> set (signals d) \<longrightarrow>
                      (\<exists>s. map_of (signals out) signal_name = Some s
                         \<and> s ! k =
                             (if filter (\<lambda>i. signal_values ! i \<noteq> 0)
                                   (bucket_records timeframe (dates d) (dates out ! k)) = []
                              then 0
                              else signal_values !
                                     last (filter (\<lambda>i. signal_values ! i \<noteq> 0)
                                             (bucket_records timeframe (dates d) (dates out ! k))))))
                \<and> (\<forall>composite.
                      (''Final_Composite_Value'', composite) \<in> set (indicators d) \<longrightarrow>
                      (\<exists>fcv. map_of (indicators out) ''Final_Composite_Value'' = Some fcv
                         \<and> fcv ! k
                             = composite ! last (bucket_records timeframe (dates d) (dates out ! k))))))"
proof (cases "timeframe = ''weekly'' \<or> timeframe = ''monthly''")
  case False
  have vd: "list_all valid_date (dates d)" and al: "columns_aligned d"
    and sl: "list_all (\<lambda>s. length (snd s) = length (dates d)) (signals d)"
    and il: "list_all (\<lambda>s. length (snd s) = length (dates d)) (indicators d)"
    using wf by (simp_all add: well_formed_def)
  have r: "resample_data_to_timeframe d timeframe = Inr d"
  proof (cases "timeframe = ''daily''")
    case True
    then show ?thesis by (simp add: resample_data_to_timeframe_def)
  next
    case nd: False
    with False have "timeframe \<notin> supported" by (simp add: supported_def)
    then show ?thesis
      using vd al
      by (auto simp: resample_data_to_timeframe_def supported_def to_datetime_def DataFrame_def
          columns_aligned_def stock_data_of_def Let_def split: option.splits)
  qed
  have "\<forall>fcv. (''Final_Composite_Value'', fcv) \<in> set (indicators d)
                      \<longrightarrow> length fcv = length (dates d)"
    using il by (auto simp: list_all_iff)
  with r al sl False show ?thesis by simp
next
  case tf: True
  have vd: "list_all valid_date (dates d)" and al: "columns_aligned d"
    and srt: "sorted_wrt (<) (dates d)"
    and ds: "distinct (map fst (signals d))"
    and sl: "list_all (\<lambda>s. length (snd s) = length (dates d)) (signals d)"
    and di: "distinct (map fst (indicators d))"
    and il: "list_all (\<lambda>s. length (snd s) = length (dates d)) (indicators d)"
    using wf by (simp_all add: well_formed_def)
  have nd: "timeframe \<noteq> ''daily''" using tf by auto
  let ?fr = "resampled_frame timeframe d"
  let ?rd = "map fst ?fr"
  let ?K = "bucket_boundary timeframe ` set (dates d)"
  let ?g = "\<lambda>(indicator_name, indicator_values).
                   if indicator_name = ''Final_Composite_Value'' \<and> length indicator_values > 0
                   then (indicator_name, resample_fcv timeframe (dates d) ?rd indicator_values)
                   else (indicator_name, indicator_values)"
  let ?f = "\<lambda>(n, vals). (n, remap_series timeframe ?rd (dates d) vals)"
  obtain out where out: "resample_data_to_timeframe d timeframe = Inr out"
    and od: "dates out = ?rd"
    and oa: "data out = Some \<lparr>open = map row_open ?fr, high = map row_high ?fr,
                              low = map row_low ?fr, close = map row_close ?fr,
                              volume = map row_volume ?fr\<rparr>"
    and os: "signals out = map_signals_to_timeframe (signals d) (dates d) ?rd timeframe"
    and oi: "indicators out = map ?g (indicators d)"
    using resample_unfold[OF tf vd al] by simp
  have rdK: "?rd = sorted_list_of_set ?K" by (rule resampled_dates_eq[OF tf vd al srt])
  have fK: "finite ?K" by simp
  have srd: "sorted_wrt (<) ?rd" unfolding rdK using fK by simp
  have setrd: "set ?rd = ?K" unfolding rdK using fK by simp
  have vr: "list_all valid_date ?rd" by (rule resampled_dates_valid[OF tf vd al srt])
  have sm: "signals out = map ?f (signals d)"
    unfolding os by (rule map_signals_per_series[OF nd ds])
  have c1: "columns_aligned out"
    by (simp add: columns_aligned_def stock_data_of_def oa od)
  have c2: "list_all (\<lambda>s. length (snd s) = length (dates out)) (signals out)"
    unfolding sm od by (simp add: list_all_iff length_remap_series split_beta)
  have c3: "\<forall>fcv. (''Final_Composite_Value'', fcv) \<in> set (indicators out)
                      \<longrightarrow> length fcv = length (dates out)"
  proof (intro allI impI)
    fix fcv assume "(''Final_Composite_Value'', fcv) \<in> set (indicators out)"
    then obtain p where p: "p \<in> set (indicators d)" "?g p = (''Final_Composite_Value'', fcv)"
      unfolding oi by auto
    obtain n vals where nv: "p = (n, vals)" by (cases p)
    have lv: "length vals = length (dates d)" using il p(1) nv by (auto simp: list_all_iff)
    show "length fcv = length (dates out)"
    proof (cases "n = ''Final_Composite_Value'' \<and> length vals > 0")
      case True
      have "?g p = (n, resample_fcv timeframe (dates d) ?rd vals)"
        unfolding nv by (simp only: prod.case if_P[OF True])
      with p(2) have "fcv = resample_fcv timeframe (dates d) ?rd vals" by simp
      then show ?thesis by (simp add: od length_resample_fcv)
    next
      case False
      have "?g p = (n, vals)"
        unfolding nv by (simp only: prod.case if_not_P[OF False])
      with p(2) have e: "n = ''Final_Composite_Value''" "fcv = vals" by simp_all
      with False have "vals = []" by simp
      with lv have "dates d = []" by simp
      then have "?rd = []" by (simp add: resampled_frame_empty)
      with e \<open>vals = []\<close> show ?thesis by (simp add: od)
    qed
  qed
  have c4: "filter (\<lambda>s. fst s \<noteq> ''Final_Composite_Value'') (indicators out)
               = filter (\<lambda>s. fst s \<noteq> ''Final_Composite_Value'') (indicators d)"
    unfolding oi by (rule other_indicators_kept)
  have c5: "dates out = sorted_list_of_set ?K" unfolding od rdK ..
  from aggregated_bars[OF tf vd al srt] out
  obtain bars where bars: "data out = Some bars"
    and vals: "\<forall>k < length (dates out).
           open bars ! k = open (stock_data_of d) ! hd (bucket_records timeframe (dates d) (dates out ! k))
         \<and> high bars ! k = Max ((\<lambda>i. high (stock_data_of d) ! i)
                                  ` set (bucket_records timeframe (dates d) (dates out ! k)))
         \<and> low bars ! k = Min ((\<lambda>i. low (stock_data_of d) ! i)
                                 ` set (bucket_records timeframe (dates d) (dates out ! k)))
         \<and> close bars ! k = close (stock_data_of d) ! last (bucket_records timeframe (dates d) (dates out ! k))
         \<and> volume bars ! k = sum_list (map (\<lambda>i. volume (stock_data_of d) ! i)
                                         (bucket_records timeframe (dates d) (dates out ! k)))"
    by auto
  have sb: "stock_data_of out = bars" by (simp add: stock_data_of_def bars)
  have c6: "\<forall>k < length (dates out).
                  bucket_records timeframe (dates d) (dates out ! k) \<noteq> []
                \<and> open (stock_data_of out) ! k
                    = open (stock_data_of d) ! hd (bucket_records timeframe (dates d) (dates out ! k))
                \<and> high (stock_data_of out) ! k
                    = Max ((\<lambda>i. high (stock_data_of d) ! i)
                             ` set (bucket_records timeframe (dates d) (dates out ! k)))
                \<and> low (stock_data_of out) ! k
                    = Min ((\<lambda>i. low (stock_data_of d) ! i)
                             ` set (bucket_records timeframe (dates d) (dates out ! k)))
                \<and> close (stock_data_of out) ! k
                    = close (stock_data_of d) ! last (bucket_records timeframe (dates d) (dates out ! k))
                \<and> volume (stock_data_of out) ! k
                    = sum_list (map (\<lambda>i. volume (stock_data_of d) ! i)
                                  (bucket_records timeframe (dates d) (dates out ! k)))
                \<and> (\<forall>signal_name signal_values.
                      (signal_name, signal_values) \<in> set (signals d) \<longrightarrow>
                      (\<exists>s. map_of (signals out) signal_name = Some s
                         \<and> s ! k =
                             (if filter (\<lambda>i. signal_values ! i \<noteq> 0)
                                   (bucket_records timeframe (dates d) (dates out ! k)) = []
                              then 0
                              else signal_values !
                                     last (filter (\<lambda>i. signal_values ! i \<noteq> 0)
                                             (bucket_records timeframe (dates d) (dates out ! k))))))
                \<and> (\<forall>composite.
                      (''Final_Composite_Value'', composite) \<in> set (indicators d) \<longrightarrow>
                      (\<exists>fcv. map_of (indicators out) ''Final_Composite_Value'' = Some fcv
                         \<and> fcv ! k
                             = composite ! last (bucket_records timeframe (dates d) (dates out ! k))))"
  proof (intro allI impI)
    fix k assume k: "k < length (dates out)"
    let ?b = "dates out ! k"
    let ?I = "bucket_records timeframe (dates d) ?b"
    have kr: "k < length ?rd" using k od by simp
    have bk: "?b \<in> ?K" using k od setrd by (metis nth_mem)
    have ne: "?I \<noteq> []" using bk by (simp add: bucket_records_nonempty)
    have b: "open (stock_data_of out) ! k
                    = open (stock_data_of d) ! hd (bucket_records timeframe (dates d) ?b)
                \<and> high (stock_data_of out) ! k
                    = Max ((\<lambda>i. high (stock_data_of d) ! i)
                             ` set (bucket_records timeframe (dates d) ?b))
                \<and> low (stock_data_of out) ! k
                    = Min ((\<lambda>i. low (stock_data_of d) ! i)
                             ` set (bucket_records timeframe (dates d) ?b))
                \<and> close (stock_data_of out) ! k
                    = close (stock_data_of d) ! last (bucket_records timeframe (dates d) ?b)
                \<and> volume (stock_data_of out) ! k
                    = sum_list (map (\<lambda>i. volume (stock_data_of d) ! i)
                                  (bucket_records timeframe (dates d) ?b))"
      using vals k unfolding sb by blast
    have s: "(\<forall>signal_name signal_values.
                      (signal_name, signal_values) \<in> set (signals d) \<longrightarrow>
                      (\<exists>s. map_of (signals out) signal_name = Some s
                         \<and> s ! k =
                             (if filter (\<lambda>i. signal_values ! i \<noteq> 0)
                                   (bucket_records timeframe (dates d) ?b) = []
                              then 0
                              else signal_values !
                                     last (filter (\<lambda>i. signal_values ! i \<noteq> 0)
                                             (bucket_records timeframe (dates d) ?b)))))"
    proof (intro allI impI)
      fix signal_name signal_values
      assume m: "(signal_name, signal_values) \<in> set (signals d)"
      have len: "length signal_values = length (dates d)"
        using sl m by (auto simp: list_all_iff)
      have keys: "map fst (map ?f (signals d)) = map fst (signals d)"
        by (induction "signals d") auto
      have dd: "distinct (map fst (map ?f (signals d)))" unfolding keys by (rule ds)
      have "(signal_name, remap_series timeframe ?rd (dates d) signal_values)
              \<in> set (map ?f (signals d))"
        using m by force
      then have lk: "map_of (signals out) signal_name
              = Some (remap_series timeframe ?rd (dates d) signal_values)"
        unfolding sm using dd by simp
      have cover: "?K \<subseteq> set ?rd" using setrd by simp
      have w: "bucket_writers timeframe ?rd (dates d) signal_values k
             = filter (\<lambda>i. signal_values ! i \<noteq> 0) ?I"
        unfolding od by (rule bucket_writers_bucket[OF srd kr cover len])
      have "remap_series timeframe ?rd (dates d) signal_values ! k =
              (if filter (\<lambda>i. signal_values ! i \<noteq> 0) ?I = [] then 0
               else signal_values ! last (filter (\<lambda>i. signal_values ! i \<noteq> 0) ?I))"
        using remap_series_slot[OF tf srd kr, of "dates d" signal_values] unfolding w .
      with lk show "\<exists>s. map_of (signals out) signal_name = Some s
                     \<and> s ! k =
                         (if filter (\<lambda>i. signal_values ! i \<noteq> 0) ?I = [] then 0
                          else signal_values ! last (filter (\<lambda>i. signal_values ! i \<noteq> 0) ?I))"
        by blast
    qed
    have c: "(\<forall>composite.
                      (''Final_Composite_Value'', composite) \<in> set (indicators d) \<longrightarrow>
                      (\<exists>fcv. map_of (indicators out) ''Final_Composite_Value'' = Some fcv
                         \<and> fcv ! k
                             = composite ! last (bucket_records timeframe (dates d) ?b)))"
    proof (intro allI impI)
      fix composite
      assume m: "(''Final_Composite_Value'', composite) \<in> set (indicators d)"
      have len: "length composite = length (dates d)"
        using il m by (auto simp: list_all_iff)
      have "?rd \<noteq> []" using kr by auto
      then have "dates d \<noteq> []" using resampled_frame_empty[of d timeframe] by auto
      then have pos: "''Final_Composite_Value'' = ''Final_Composite_Value'' \<and> length composite > 0"
        using len by simp
      have lk: "map_of (indicators out) ''Final_Composite_Value''
              = Some (resample_fcv timeframe (dates d) ?rd composite)"
        unfolding oi indicator_lookup[OF di m] by (simp only: if_P[OF pos])
      have ir: "interval_records timeframe (dates d) (length composite) (?rd ! k) = ?I"
        unfolding len od by (rule interval_records_bucket[OF tf vd bk[unfolded od]])
      have ne': "interval_records timeframe (dates d) (length composite) (?rd ! k) \<noteq> []"
        unfolding ir by (rule ne)
      have "resample_fcv timeframe (dates d) ?rd composite ! k = composite ! last ?I"
        using resample_fcv_slot[OF tf kr vd vr, of composite] ne' unfolding ir by simp
      with lk show "\<exists>fcv. map_of (indicators out) ''Final_Composite_Value'' = Some fcv
                     \<and> fcv ! k = composite ! last ?I"
        by blast
    qed
    from ne b s c show "bucket_records timeframe (dates d) ?b \<noteq> []
                \<and> open (stock_data_of out) ! k
                    = open (stock_data_of d) ! hd (bucket_records timeframe (dates d) ?b)
                \<and> high (stock_data_of out) ! k
                    = Max ((\<lambda>i. high (stock_data_of d) ! i)
                             ` set (bucket_records timeframe (dates d) ?b))
                \<and> low (stock_data_of out) ! k
                    = Min ((\<lambda>i. low (stock_data_of d) ! i)
                             ` set (bucket_records timeframe (dates d) ?b))
                \<and> close (stock_data_of out) ! k
                    = close (stock_data_of d) ! last (bucket_records timeframe (dates d) ?b)
                \<and> volume (stock_data_of out) ! k
                    = sum_list (map (\<lambda>i. volume (stock_data_of d) ! i)
                                  (bucket_records timeframe (dates d) ?b))
                \<and> (\<forall>signal_name signal_values.
                      (signal_name, signal_values) \<in> set (signals d) \<longrightarrow>
                      (\<exists>s. map_of (signals out) signal_name = Some s
                         \<and> s ! k =
                             (if filter (\<lambda>i. signal_values ! i \<noteq> 0)
                                   (bucket_records timeframe (dates d) ?b) = []
                              then 0
                              else signal_values !
                                     last (filter (\<lambda>i. signal_values ! i \<noteq> 0)
                                             (bucket_records timeframe (dates d) ?b)))))
                \<and> (\<forall>composite.
                      (''Final_Composite_Value'', composite) \<in> set (indicators d) \<longrightarrow>
                      (\<exists>fcv. map_of (indicators out) ''Final_Composite_Value'' = Some fcv
                         \<and> fcv ! k
                             = composite ! last (bucket_records timeframe (dates d) ?b)))"
      by blast
  qed
  from out c1 c2 c3 c4 c5 c6 tf show ?thesis by blast
qed

theorem output_series_aligned_witness:
  "well_formed ex_week
   \<and> resample_data_to_timeframe ex_week ''weekly'' =
       Inr \<lparr>symbol = ''X'', dates = [(2024, 1, 5), (2024, 1, 12)],
            data = Some \<lparr>open = [10, 12], high = [13, 14], low = [8, 11], close = [12, 13],
                         volume = [600, 400]\<rparr>,
            signals = [(''macd_signal'', [- 1, 0])],
            indicators = [(''Final_Composite_Value'', [0.9, 0.4])],
            trendlines = Some [], last_updated = None, error = None\<rparr>
   \<and> bucket_records ''weekly'' (dates ex_week) (2024, 1, 5) = [0, 1, 2]
   \<and> bucket_records ''weekly'' (dates ex_week) (2024, 1, 12) = [3]
   \<and> (\<exists>out. resample_data_to_timeframe ex_week ''weekly'' = Inr out
           \<and> columns_aligned out
           \<and> list_all (\<lambda>s. length (snd s) = length (dates out)) (signals out)
           \<and> dates out = sorted_list_of_set (bucket_boundary ''weekly'' ` set (dates ex_week)))"
proof -
  have h: "well_formed ex_week" by code_simp
  have t: "''weekly'' = ''weekly'' \<or> ''weekly'' = ''monthly''" by simp
  have r: "resample_data_to_timeframe ex_week ''weekly'' =
       Inr \<lparr>symbol = ''X'', dates = [(2024, 1, 5), (2024, 1, 12)],
            data = Some \<lparr>open = [10, 12], high = [13, 14], low = [8, 11], close = [12, 13],
                         volume = [600, 400]\<rparr>,
            signals = [(''macd_signal'', [- 1, 0])],
            indicators = [(''Final_Composite_Value'', [0.9, 0.4])],
            trendlines = Some [], last_updated = None, error = None\<rparr>"
    by code_simp
  have b1: "bucket_records ''weekly'' (dates ex_week) (2024, 1, 5) = [0, 1, 2]" by code_simp
  have b2: "bucket_records ''weekly'' (dates ex_week) (2024, 1, 12) = [3]" by code_simp
  from output_series_aligned [OF h, of "''weekly''"] t
  have "\<exists>out. resample_data_to_timeframe ex_week ''weekly'' = Inr out
           \<and> columns_aligned out
           \<and> list_all (\<lambda>s. length (snd s) = length (dates out)) (signals out)
           \<and> dates out = sorted_list_of_set (bucket_boundary ''weekly'' ` set (dates ex_week))"
    by blast
  with h r b1 b2 show ?thesis by blast
qed

section \<open>Aggregating the price bars\<close>

text \<open>
  C1, as the claim states it, fails in its volume part: the volume column is summed in
  64-bit integers and wraps around silently. Two days of one week with the volumes
  9223372036854775807 and 1, whose sum is 9223372036854775808, aggregate to a weekly bar
  with the volume -9223372036854775808.
\<close>

theorem volume_sum_counterexample:
  "list_all valid_date (dates ex_big_volume) \<and> columns_aligned ex_big_volume
   \<and> sorted_wrt (<) (dates ex_big_volume)
   \<and> map sint (volume (stock_data_of ex_big_volume)) = [9223372036854775807, 1]
   \<and> resample_data_to_timeframe ex_big_volume ''weekly'' =
       Inr \<lparr>symbol = ''X'', dates = [(2024, 1, 5)],
            data = Some \<lparr>open = [10], high = [13], low = [8], close = [12],
                         volume = [- 9223372036854775808]\<rparr>,
            signals = [], indicators = [],
            trendlines = Some [], last_updated = None, error = None\<rparr>
   \<and> sint (- 9223372036854775808 :: 64 word) = - 9223372036854775808
   \<and> (9223372036854775807 :: int) + 1 = 9223372036854775808"
  by code_simp

text \<open>
  C1, amended. For a weekly or monthly aggregation of a well-formed daily dataset (parsable
  dates in strictly ascending order, price columns as long as the date axis, integer
  volumes), the output has exactly one bar for every bucket boundary that at least one
  daily record maps to, in ascending order of the boundaries, and no bar for a bucket
  without a daily record. The bar of a bucket has the open of the first contributing
  record, the maximum of the highs, the minimum of the lows and the close of the last
  contributing record; its volume is the sum of the volumes in 64-bit signed arithmetic,
  which is the sum itself whenever that lies in the 64-bit range and the sum wrapped around
  modulo \<open>2 ^ 64\<close> otherwise.
\<close>

theorem ohlcv_aggregation:
  assumes tf: "timeframe = ''weekly'' \<or> timeframe = ''monthly''"
    and vd: "list_all valid_date (dates d)" and al: "columns_aligned d"
    and srt: "sorted_wrt (<) (dates d)"
  shows "\<exists>out bars. resample_data_to_timeframe d timeframe = Inr out \<and> data out = Some bars
     \<and> dates out = sorted_list_of_set (bucket_boundary timeframe ` set (dates d))
     \<and> sorted_wrt (<) (dates out)
     \<and> (\<forall>b. b \<in> set (dates out) \<longleftrightarrow> bucket_records timeframe (dates d) b \<noteq> [])
     \<and> length (open bars) = length (dates out) \<and> length (high bars) = length (dates out)
     \<and> length (low bars) = length (dates out) \<and> length (close bars) = length (dates out)
     \<and> length (volume bars) = length (dates out)
     \<and> (\<forall>k < length (dates out).
           open bars ! k = open (stock_data_of d) ! hd (bucket_records timeframe (dates d) (dates out ! k))
         \<and> high bars ! k = Max ((\<lambda>i. high (stock_data_of d) ! i)
                                  ` set (bucket_records timeframe (dates d) (dates out ! k)))
         \<and> low bars ! k = Min ((\<lambda>i. low (stock_data_of d) ! i)
                                 ` set (bucket_records timeframe (dates d) (dates out ! k)))
         \<and> close bars ! k = close (stock_data_of d) ! last (bucket_records timeframe (dates d) (dates out ! k))
         \<and> sint (volume bars ! k)
             = (sum_list (map (\<lambda>i. sint (volume (stock_data_of d) ! i))
                            (bucket_records timeframe (dates d) (dates out ! k))) + 2 ^ 63)
                 mod 2 ^ 64 - 2 ^ 63
         \<and> (- (2 ^ 63) \<le> sum_list (map (\<lambda>i. sint (volume (stock_data_of d) ! i))
                                   (bucket_records timeframe (dates d) (dates out ! k)))
              \<and> sum_list (map (\<lambda>i. sint (volume (stock_data_of d) ! i))
                            (bucket_records timeframe (dates d) (dates out ! k))) < 2 ^ 63
            \<longrightarrow> sint (volume bars ! k)
                  = sum_list (map (\<lambda>i. sint (volume (stock_data_of d) ! i))
                                (bucket_records timeframe (dates d) (dates out ! k)))))"
proof -
  from aggregated_bars[OF tf vd al srt]
  obtain out bars where out: "resample_data_to_timeframe d timeframe = Inr out"
    and bars: "data out = Some bars"
    and d1: "dates out = sorted_list_of_set (bucket_boundary timeframe ` set (dates d))"
    and d2: "sorted_wrt (<) (dates out)"
    and d3: "\<forall>b. b \<in> set (dates out) \<longleftrightarrow> bucket_records timeframe (dates d) b \<noteq> []"
    and lens: "length (open bars) = length (dates out)" "length (high bars) = length (dates out)"
      "length (low bars) = length (dates out)" "length (close bars) = length (dates out)"
      "length (volume bars) = length (dates out)"
    and vals: "\<forall>k < length (dates out).
           open bars ! k = open (stock_data_of d) ! hd (bucket_records timeframe (dates d) (dates out ! k))
         \<and> high bars ! k = Max ((\<lambda>i. high (stock_data_of d) ! i)
                                  ` set (bucket_records timeframe (dates d) (dates out ! k)))
         \<and> low bars ! k = Min ((\<lambda>i. low (stock_data_of d) ! i)
                                 ` set (bucket_records timeframe (dates d) (dates out ! k)))
         \<and> close bars ! k = close (stock_data_of d) ! last (bucket_records timeframe (dates d) (dates out ! k))
         \<and> volume bars ! k = sum_list (map (\<lambda>i. volume (stock_data_of d) ! i)
                                         (bucket_records timeframe (dates d) (dates out ! k)))"
    by blast
  have v: "\<forall>k < length (dates out).
           open bars ! k = open (stock_data_of d) ! hd (bucket_records timeframe (dates d) (dates out ! k))
         \<and> high bars ! k = Max ((\<lambda>i. high (stock_data_of d) ! i)
                                  ` set (bucket_records timeframe (dates d) (dates out ! k)))
         \<and> low bars ! k = Min ((\<lambda>i. low (stock_data_of d) ! i)
                                 ` set (bucket_records timeframe (dates d) (dates out ! k)))
         \<and> close bars ! k = close (stock_data_of d) ! last (bucket_records timeframe (dates d) (dates out ! k))
         \<and> sint (volume bars ! k)
             = (sum_list (map (\<lambda>i. sint (volume (stock_data_of d) ! i))
                            (bucket_records timeframe (dates d) (dates out ! k))) + 2 ^ 63)
                 mod 2 ^ 64 - 2 ^ 63
         \<and> (- (2 ^ 63) \<le> sum_list (map (\<lambda>i. sint (volume (stock_data_of d) ! i))
                                   (bucket_records timeframe (dates d) (dates out ! k)))
              \<and> sum_list (map (\<lambda>i. sint (volume (stock_data_of d) ! i))
                            (bucket_records timeframe (dates d) (dates out ! k))) < 2 ^ 63
            \<longrightarrow> sint (volume bars ! k)
                  = sum_list (map (\<lambda>i. sint (volume (stock_data_of d) ! i))
                                (bucket_records timeframe (dates d) (dates out ! k))))"
  proof (intro allI impI)
    fix k assume k: "k < length (dates out)"
    let ?I = "bucket_records timeframe (dates d) (dates out ! k)"
    let ?ws = "map (\<lambda>i. volume (stock_data_of d) ! i) ?I"
    have ms: "map sint ?ws = map (\<lambda>i. sint (volume (stock_data_of d) ! i)) ?I" by simp
    from vals k have p: "open bars ! k = open (stock_data_of d) ! hd ?I"
      "high bars ! k = Max ((\<lambda>i. high (stock_data_of d) ! i) ` set ?I)"
      "low bars ! k = Min ((\<lambda>i. low (stock_data_of d) ! i) ` set ?I)"
      "close bars ! k = close (stock_data_of d) ! last ?I"
      and vk: "volume bars ! k = sum_list ?ws"
      by blast+
    have w: "sint (volume bars ! k)
           = (sum_list (map (\<lambda>i. sint (volume (stock_data_of d) ! i)) ?I) + 2 ^ 63) mod 2 ^ 64 - 2 ^ 63"
      unfolding vk using sint_sum_list_wrap[of ?ws] unfolding ms .
    have x: "- (2 ^ 63) \<le> sum_list (map (\<lambda>i. sint (volume (stock_data_of d) ! i)) ?I)
              \<and> sum_list (map (\<lambda>i. sint (volume (stock_data_of d) ! i)) ?I) < 2 ^ 63
            \<longrightarrow> sint (volume bars ! k) = sum_list (map (\<lambda>i. sint (volume (stock_data_of d) ! i)) ?I)"
      unfolding vk using sint_sum_list_exact[of ?ws] unfolding ms by blast
    from p w x show "open bars ! k = open (stock_data_of d) ! hd ?I
         \<and> high bars ! k = Max ((\<lambda>i. high (stock_data_of d) ! i) ` set ?I)
         \<and> low bars ! k = Min ((\<lambda>i. low (stock_data_of d) ! i) ` set ?I)
         \<and> close bars ! k = close (stock_data_of d) ! last ?I
         \<and> sint (volume bars ! k)
             = (sum_list (map (\<lambda>i. sint (volume (stock_data_of d) ! i)) ?I) + 2 ^ 63)
                 mod 2 ^ 64 - 2 ^ 63
         \<and> (- (2 ^ 63) \<le> sum_list (map (\<lambda>i. sint (volume (stock_data_of d) ! i)) ?I)
              \<and> sum_list (map (\<lambda>i. sint (volume (stock_data_of d) ! i)) ?I) < 2 ^ 63
            \<longrightarrow> sint (volume bars ! k)
                  = sum_list (map (\<lambda>i. sint (volume (stock_data_of d) ! i)) ?I))"
      by blast
  qed
  from out bars d1 d2 d3 lens v show ?thesis by blast
qed

theorem ohlcv_aggregation_witness:
  "list_all valid_date (dates ex_gap) \<and> columns_aligned ex_gap \<and> sorted_wrt (<) (dates ex_gap)
   \<and> resample_data_to_timeframe ex_gap ''weekly'' =
       Inr \<lparr>symbol = ''X'', dates = [(2024, 1, 5), (2024, 1, 19)],
            data = Some \<lparr>open = [10, 20], high = [13, 21], low = [8, 19], close = [12, 20],
                         volume = [300, 400]\<rparr>,
            signals = [], indicators = [],
            trendlines = Some [], last_updated = None, error = None\<rparr>
   \<and> bucket_records ''weekly'' (dates ex_gap) (2024, 1, 5) = [0, 1]
   \<and> bucket_records ''weekly'' (dates ex_gap) (2024, 1, 12) = []
   \<and> (\<exists>out bars. resample_data_to_timeframe ex_gap ''weekly'' = Inr out \<and> data out = Some bars
         \<and> dates out = sorted_list_of_set (bucket_boundary ''weekly'' ` set (dates ex_gap))
         \<and> (2024, 1, 12) \<notin> set (dates out))"
proof -
  have h1: "''weekly'' = ''weekly'' \<or> ''weekly'' = ''monthly''" by simp
  have h2: "list_all valid_date (dates ex_gap)" by code_simp
  have h3: "columns_aligned ex_gap" by code_simp
  have h4: "sorted_wrt (<) (dates ex_gap)" by (simp add: ex_gap_def)
  have r: "resample_data_to_timeframe ex_gap ''weekly'' =
       Inr \<lparr>symbol = ''X'', dates = [(2024, 1, 5), (2024, 1, 19)],
            data = Some \<lparr>open = [10, 20], high = [13, 21], low = [8, 19], close = [12, 20],
                         volume = [300, 400]\<rparr>,
            signals = [], indicators = [],
            trendlines = Some [], last_updated = None, error = None\<rparr>"
    by code_simp
  have b1: "bucket_records ''weekly'' (dates ex_gap) (2024, 1, 5) = [0, 1]" by code_simp
  have b2: "bucket_records ''weekly'' (dates ex_gap) (2024, 1, 12) = []" by code_simp
  from ohlcv_aggregation [OF h1 h2 h3 h4] b2
  have "\<exists>out bars. resample_data_to_timeframe ex_gap ''weekly'' = Inr out \<and> data out = Some bars
         \<and> dates out = sorted_list_of_set (bucket_boundary ''weekly'' ` set (dates ex_gap))
         \<and> (2024, 1, 12) \<notin> set (dates out)"
    by blast
  with h2 h3 h4 r b1 b2 show ?thesis by blast
qed

end
